theory Spec2Isabelle
  imports Main "HOL-Library.AList" "HOL-Library.Multiset" "HOL-Library.Sublist"
begin

section \<open>The Go string library, as far as the plugin uses it\<close>

text \<open>
  Go strings are byte sequences; they are modelled as \<^typ>\<open>string\<close>, one \<^typ>\<open>char\<close> per
  byte. The functions of this section work on bytes in Go as well.

  \<^verbatim>\<open>strings.Index(s, sep)\<close>: the index of the first occurrence of \<open>sep\<close> in \<open>s\<close>, or
  \<open>None\<close> (Go returns -1) when there is none.
\<close>

fun strings_Index :: "string \<Rightarrow> string \<Rightarrow> nat option" where
  "strings_Index [] sep = (if sep = [] then Some 0 else None)"
| "strings_Index (c # s) sep =
     (if prefix sep (c # s) then Some 0 else map_option Suc (strings_Index s sep))"

text \<open>\<^verbatim>\<open>strings.Contains(s, substr)\<close> is \<^verbatim>\<open>Index(s, substr) >= 0\<close>.\<close>

definition strings_Contains :: "string \<Rightarrow> string \<Rightarrow> bool" where
  "strings_Contains s substr = (strings_Index s substr \<noteq> None)"

text \<open>
  \<^verbatim>\<open>strings.SplitN(s, sep, 2)\<close> for a non-empty separator: cut at the first occurrence
  of \<open>sep\<close>, or return the one-element list \<open>[s]\<close> when there is none.
\<close>

definition strings_SplitN2 :: "string \<Rightarrow> string \<Rightarrow> string list" where
  "strings_SplitN2 s sep =
     (case strings_Index s sep of
        None \<Rightarrow> [s]
      | Some m \<Rightarrow> [take m s, drop (m + length sep) s])"

text \<open>\<^verbatim>\<open>strings.Join(elems, sep)\<close>.\<close>

fun strings_Join :: "string list \<Rightarrow> string \<Rightarrow> string" where
  "strings_Join [] sep = []"
| "strings_Join [x] sep = x"
| "strings_Join (x # y # zs) sep = x @ sep @ strings_Join (y # zs) sep"

section \<open>Formatting and parsing integers (fmt, strconv)\<close>

text \<open>
  \<^verbatim>\<open>fmt.Sprintf("%d", n)\<close> for a Go \<^verbatim>\<open>int\<close>: the decimal digits, most significant first,
  after a minus sign for a negative number.
\<close>

definition digit_char :: "nat \<Rightarrow> char" where
  "digit_char d = ''0123456789'' ! d"

function decimal :: "nat \<Rightarrow> string" where
  "decimal n = (if n < 10 then [digit_char n] else decimal (n div 10) @ [digit_char (n mod 10)])"
  by pat_completeness auto
termination
  by (relation "measure id") auto

declare decimal.simps [simp del]

definition fmt_d :: "int \<Rightarrow> string" where
  "fmt_d i = (if i < 0 then CHR ''-'' # decimal (nat (- i)) else decimal (nat i))"

text \<open>
  \<^verbatim>\<open>strconv.ParseUint(s, 10, 0)\<close> and \<^verbatim>\<open>strconv.ParseInt(s, 10, 0)\<close> on a 64-bit platform.
  Both return a value with every error; the loop returns at the first byte that is not a
  digit (value 0) or at the first overflow (the largest value).
\<close>

datatype NumError = ErrSyntax | ErrRange

definition maxUint64 :: nat where
  "maxUint64 = 2 ^ 64 - 1"

fun ParseUint_loop :: "nat \<Rightarrow> string \<Rightarrow> nat \<times> NumError option" where
  "ParseUint_loop n [] = (n, None)"
| "ParseUint_loop n (c # s) =
     (if \<not> (of_char CHR ''0'' \<le> (of_char c :: nat) \<and> (of_char c :: nat) \<le> of_char CHR ''9'')
      then (0, Some ErrSyntax)
      else if n \<ge> maxUint64 div 10 + 1 then (maxUint64, Some ErrRange)
      else let n1 = n * 10 + (of_char c - of_char CHR ''0'') in
           if n1 > maxUint64 then (maxUint64, Some ErrRange) else ParseUint_loop n1 s)"

definition ParseUint :: "string \<Rightarrow> nat \<times> NumError option" where
  "ParseUint s = (if s = [] then (0, Some ErrSyntax) else ParseUint_loop 0 s)"

definition ParseInt :: "string \<Rightarrow> int \<times> NumError option" where
  "ParseInt s0 =
     (if s0 = [] then (0, Some ErrSyntax)
      else let neg = (hd s0 = CHR ''-'');
               s = (if hd s0 = CHR ''+'' \<or> hd s0 = CHR ''-'' then tl s0 else s0);
               (un, err) = ParseUint s
           in if err = Some ErrSyntax then (0, err)
              else if \<not> neg \<and> un \<ge> 2 ^ 63 then (2 ^ 63 - 1, Some ErrRange)
              else if neg \<and> un > 2 ^ 63 then (- (2 ^ 63), Some ErrRange)
              else (if neg then - int un else int un, None))"

section \<open>Replica-annotated ids (device/devices.go)\<close>

text \<open>
  \<^verbatim>\<open>NewAnnotatedID\<close>, \<^verbatim>\<open>HasAnnotations\<close>, \<^verbatim>\<open>Split\<close> and \<^verbatim>\<open>GetID\<close> of \<^verbatim>\<open>AnnotatedID\<close>.
  \<^verbatim>\<open>Split\<close> drops the error of \<^verbatim>\<open>ParseInt\<close> and keeps its value.
\<close>

definition NewAnnotatedID :: "string \<Rightarrow> int \<Rightarrow> string" where
  "NewAnnotatedID i replica = i @ ''::'' @ fmt_d replica"

definition HasAnnotations :: "string \<Rightarrow> bool" where
  "HasAnnotations r = (length (strings_SplitN2 r ''::'') = 2)"

definition AnnotatedID_Split :: "string \<Rightarrow> string \<times> int" where
  "AnnotatedID_Split r =
     (case strings_SplitN2 r ''::'' of
        [a, b] \<Rightarrow> (a, fst (ParseInt b))
      | _ \<Rightarrow> (r, 0))"

definition GetID :: "string \<Rightarrow> string" where
  "GetID r = fst (AnnotatedID_Split r)"

section \<open>Devices and inventories (device/devices.go)\<close>

text \<open>
  \<^verbatim>\<open>type Device struct\<close>: the embedded \<^verbatim>\<open>pluginapi.Device\<close> contributes \<open>ID\<close>, \<open>Health\<close>
  and \<open>Topology\<close> (the NUMA node, when there is one).
\<close>

record Device =
  ID :: string
  Health :: string
  Topology :: "int option"
  Paths :: "string list"
  Index :: string
  TotalMemory :: nat
  ComputeCapability :: string
  Replicas :: int

text \<open>
  \<^verbatim>\<open>type Devices map[string]*Device\<close>. A Go map is modelled as an association list read
  with \<^const>\<open>map_of\<close> and written with \<^const>\<open>AList.update\<close>; the order of the list
  plays no role in a lookup.
\<close>

type_synonym Devices = "(string \<times> Device) list"

text \<open>\<^verbatim>\<open>func (ds Devices) Contains(ids ...string) bool\<close>\<close>

fun Contains :: "Devices \<Rightarrow> string list \<Rightarrow> bool" where
  "Contains ds [] = True"
| "Contains ds (i # ids) = (if map_of ds i = None then False else Contains ds ids)"

text \<open>
  \<^verbatim>\<open>IsMigDevice\<close> and the two \<^verbatim>\<open>AlignedAllocationSupported\<close> methods, of a device (the loop
  over its paths) and of an inventory (the loop over its devices).
\<close>

definition IsMigDevice :: "Device \<Rightarrow> bool" where
  "IsMigDevice d = strings_Contains (Index d) '':''"

fun no_dxg_path :: "string list \<Rightarrow> bool" where
  "no_dxg_path [] = True"
| "no_dxg_path (p # ps) = (if p = ''/dev/dxg'' then False else no_dxg_path ps)"

definition Device_AlignedAllocationSupported :: "Device \<Rightarrow> bool" where
  "Device_AlignedAllocationSupported d = (if IsMigDevice d then False else no_dxg_path (Paths d))"

fun AlignedAllocationSupported :: "Devices \<Rightarrow> bool" where
  "AlignedAllocationSupported [] = True"
| "AlignedAllocationSupported ((k, d) # ds) =
     (if \<not> Device_AlignedAllocationSupported d then False else AlignedAllocationSupported ds)"

text \<open>
  \<^verbatim>\<open>Subset\<close>: the entries of \<open>ds\<close> under the given ids, collected in a fresh map.
  \<^verbatim>\<open>Difference\<close>: the entries of \<open>ds\<close> whose id is not a key of \<open>ods\<close>.
\<close>

fun Subset_loop :: "Devices \<Rightarrow> string list \<Rightarrow> Devices \<Rightarrow> Devices" where
  "Subset_loop ds [] res = res"
| "Subset_loop ds (i # ids) res =
     (if Contains ds [i]
      then Subset_loop ds ids (case map_of ds i of None \<Rightarrow> res | Some d \<Rightarrow> AList.update i d res)
      else Subset_loop ds ids res)"

definition Subset :: "Devices \<Rightarrow> string list \<Rightarrow> Devices" where
  "Subset ds ids = Subset_loop ds ids []"

fun Difference_loop :: "Devices \<Rightarrow> Devices \<Rightarrow> Devices \<Rightarrow> Devices" where
  "Difference_loop [] ods res = res"
| "Difference_loop ((i, d) # ds) ods res =
     (if \<not> Contains ods [i] then Difference_loop ds ods (AList.update i d res)
      else Difference_loop ds ods res)"

definition Difference :: "Devices \<Rightarrow> Devices \<Rightarrow> Devices" where
  "Difference ds ods = Difference_loop ds ods []"

text \<open>
  Two things the Go language leaves open decide the result of the replica-distributed
  allocation, and both are parameters of the model:
  \<^item> the order in which \<^verbatim>\<open>range\<close> enumerates a map (\<^verbatim>\<open>GetIDs\<close> appends the ids in that
    order): \<open>map_order\<close> rearranges the list of ids;
  \<^item> \<^verbatim>\<open>sort.Slice\<close>, which sorts by \<open>less\<close> and is documented as not stable.
\<close>

record go_runtime =
  map_order :: "string list \<Rightarrow> string list"
  sort_Slice :: "(string \<Rightarrow> string \<Rightarrow> bool) \<Rightarrow> string list \<Rightarrow> string list"

text \<open>\<^verbatim>\<open>func (ds Devices) GetIDs() []string\<close>: the \<open>ID\<close> of every device, in map order.\<close>

definition GetIDs :: "go_runtime \<Rightarrow> Devices \<Rightarrow> string list" where
  "GetIDs rt ds = map_order rt (map (\<lambda>(k, d). ID d) ds)"

text \<open>
  What the two parameters may be: an enumeration lists every entry once, and the sort
  returns a rearrangement of its input in which no element is less than one before it.
  The comparisons of \<^verbatim>\<open>distributedAlloc\<close> compare an integer key.
\<close>

definition map_order_spec :: "(string list \<Rightarrow> string list) \<Rightarrow> bool" where
  "map_order_spec ord = (\<forall>xs. mset (ord xs) = mset xs)"

definition sort_Slice_spec ::
  "((string \<Rightarrow> string \<Rightarrow> bool) \<Rightarrow> string list \<Rightarrow> string list) \<Rightarrow> bool" where
  "sort_Slice_spec srt =
     (\<forall>(key :: string \<Rightarrow> int) xs.
        mset (srt (\<lambda>a b. key a < key b) xs) = mset xs \<and>
        sorted_wrt (\<lambda>a b. \<not> key b < key a) (srt (\<lambda>a b. key a < key b) xs))"

definition runtime_ok :: "go_runtime \<Rightarrow> bool" where
  "runtime_ok rt = (map_order_spec (map_order rt) \<and> sort_Slice_spec (sort_Slice rt))"

text \<open>
  The insertion sort that \<^verbatim>\<open>sort.Slice\<close> runs on a slice of at most 12 elements: each
  element moves left past the elements it is less than. With the enumeration that keeps
  the order of the list it gives one admissible runtime.
\<close>

fun insert_sorted :: "('a \<Rightarrow> 'a \<Rightarrow> bool) \<Rightarrow> 'a \<Rightarrow> 'a list \<Rightarrow> 'a list" where
  "insert_sorted lt x [] = [x]"
| "insert_sorted lt x (y # ys) = (if lt x y then x # y # ys else y # insert_sorted lt x ys)"

definition insertionSort :: "('a \<Rightarrow> 'a \<Rightarrow> bool) \<Rightarrow> 'a list \<Rightarrow> 'a list" where
  "insertionSort lt xs = foldl (\<lambda>sorted x. insert_sorted lt x sorted) [] xs"

definition stable_runtime :: go_runtime where
  "stable_runtime = \<lparr>map_order = (\<lambda>xs. xs), sort_Slice = insertionSort\<rparr>"

section \<open>The device plugin server (NvidiaDevicePlugin, Allocate)\<close>

datatype error =
    InvalidAllocationRequest string
  | NotEnoughDevices
  | PanicIndexOutOfRange
  | PanicNilDereference

text \<open>
  The fields of \<^verbatim>\<open>NvidiaDevicePlugin\<close> that the code below reads and writes. Of the
  channel \<^verbatim>\<open>stop\<close> the record keeps what matters to the code: whether it has been
  closed (\<open>stop_closed\<close>).
\<close>

record NvidiaDevicePlugin =
  resourceName :: string
  devices :: Devices
  socket :: string
  stop_closed :: bool

text \<open>\<^verbatim>\<open>pluginapi.ContainerAllocateResponse\<close>, of which only \<open>Envs\<close> is set.\<close>

record ContainerAllocateResponse =
  Envs :: "(string \<times> string) list"

text \<open>
  The body of the loop of \<^verbatim>\<open>Allocate\<close> over \<^verbatim>\<open>reqs.ContainerRequests\<close>; a request is
  its \<^verbatim>\<open>DevicesIDs\<close>. The first request with an unknown id ends the call with an error
  and no response (\<^verbatim>\<open>return nil, fmt.Errorf(...)\<close>).
\<close>

fun Allocate_loop ::
  "NvidiaDevicePlugin \<Rightarrow> string list list \<Rightarrow> ContainerAllocateResponse list
     \<Rightarrow> error + ContainerAllocateResponse list" where
  "Allocate_loop plugin [] responses = Inr responses"
| "Allocate_loop plugin (req # reqs) responses =
     (if \<not> Contains (devices plugin) req
      then Inl (InvalidAllocationRequest (resourceName plugin))
      else Allocate_loop plugin reqs
             (responses @
               [\<lparr>Envs = [(''NVIDIA_VISIBLE_DEVICES'', strings_Join req '','')]\<rparr>]))"

text \<open>
  \<^verbatim>\<open>Allocate\<close> has a pointer receiver; the plugin is threaded through to make explicit
  what the call does to it.
\<close>

definition Allocate ::
  "NvidiaDevicePlugin \<Rightarrow> string list list
     \<Rightarrow> NvidiaDevicePlugin \<times> (error + ContainerAllocateResponse list)" where
  "Allocate plugin reqs = (plugin, Allocate_loop plugin reqs [])"

section \<open>Preferred allocation (NvidiaDevicePlugin)\<close>

text \<open>\<^verbatim>\<open>func (rs AnnotatedIDs) AnyHasAnnotations() bool\<close>\<close>

fun AnyHasAnnotations :: "string list \<Rightarrow> bool" where
  "AnyHasAnnotations [] = False"
| "AnyHasAnnotations (r # rs) = (if HasAnnotations r then True else AnyHasAnnotations rs)"

text \<open>
  \<^verbatim>\<open>distributedAlloc\<close>. The table \<^verbatim>\<open>replicas\<close> maps a base id to its two counters; the
  first loop counts the candidates of each base id, the second the inventory keys of each
  base id that has a candidate.
\<close>

record replica =
  total :: int
  available :: int

fun count_available :: "(string \<rightharpoonup> replica) \<Rightarrow> string list \<Rightarrow> (string \<rightharpoonup> replica)" where
  "count_available replicas [] = replicas"
| "count_available replicas (c # cs) =
     (let i = GetID c;
          r = (case replicas i of None \<Rightarrow> \<lparr>total = 0, available = 0\<rparr> | Some r \<Rightarrow> r)
      in count_available (replicas(i \<mapsto> r\<lparr>available := available r + 1\<rparr>)) cs)"

fun count_total :: "(string \<rightharpoonup> replica) \<Rightarrow> string list \<Rightarrow> (string \<rightharpoonup> replica)" where
  "count_total replicas [] = replicas"
| "count_total replicas (d # ds) =
     (let i = GetID d
      in case replicas i of
           None \<Rightarrow> count_total replicas ds
         | Some r \<Rightarrow> count_total (replicas(i \<mapsto> r\<lparr>total := total r + 1\<rparr>)) ds)"

text \<open>
  The comparison handed to \<^verbatim>\<open>sort.Slice\<close>: \<^verbatim>\<open>idiff < jdiff\<close>, where the difference of a
  candidate is \<open>total - available\<close> of its base id. Every candidate has an entry in the
  table (lemma \<open>replica_table_defined\<close>), so the value at a missing entry is never read.
\<close>

definition skew :: "(string \<rightharpoonup> replica) \<Rightarrow> string \<Rightarrow> int" where
  "skew replicas c = (case replicas (GetID c) of None \<Rightarrow> 0 | Some r \<Rightarrow> total r - available r)"

definition less_skew :: "(string \<rightharpoonup> replica) \<Rightarrow> string \<Rightarrow> string \<Rightarrow> bool" where
  "less_skew replicas a b = (skew replicas a < skew replicas b)"

text \<open>
  The loop \<^verbatim>\<open>for i := 0; i < needed; i++\<close>, as a count-down of the iterations left. It
  sorts, takes \<^verbatim>\<open>candidates[0]\<close>, decrements the counter of its base id and drops it from
  the candidates. Indexing an empty slice and reading a missing table entry panic in Go.
\<close>

fun pick_loop ::
  "go_runtime \<Rightarrow> nat \<Rightarrow> (string \<rightharpoonup> replica) \<Rightarrow> string list \<Rightarrow> string list
     \<Rightarrow> error + string list" where
  "pick_loop rt 0 replicas candidates picked = Inr picked"
| "pick_loop rt (Suc n) replicas candidates picked =
     (case sort_Slice rt (less_skew replicas) candidates of
        [] \<Rightarrow> Inl PanicIndexOutOfRange
      | c # rest \<Rightarrow>
          (case replicas (GetID c) of
             None \<Rightarrow> Inl PanicNilDereference
           | Some r \<Rightarrow>
               pick_loop rt n (replicas(GetID c \<mapsto> r\<lparr>available := available r - 1\<rparr>)) rest
                 (picked @ [c])))"

definition alloc_candidates ::
  "go_runtime \<Rightarrow> NvidiaDevicePlugin \<Rightarrow> string list \<Rightarrow> string list \<Rightarrow> string list" where
  "alloc_candidates rt plugin avail required =
     GetIDs rt (Difference (Subset (devices plugin) avail) (Subset (devices plugin) required))"

definition replica_table :: "NvidiaDevicePlugin \<Rightarrow> string list \<Rightarrow> (string \<rightharpoonup> replica)" where
  "replica_table plugin candidates =
     count_total (count_available Map.empty candidates) (map fst (devices plugin))"

definition distributedAlloc ::
  "go_runtime \<Rightarrow> NvidiaDevicePlugin \<Rightarrow> string list \<Rightarrow> string list \<Rightarrow> int
     \<Rightarrow> error + string list" where
  "distributedAlloc rt plugin avail required sz =
     (let candidates = alloc_candidates rt plugin avail required;
          needed = sz - int (length required)
      in if int (length candidates) < needed then Inl NotEnoughDevices
         else let replicas = replica_table plugin candidates
              in case pick_loop rt (nat needed) replicas candidates [] of
                   Inl e \<Rightarrow> Inl e
                 | Inr picked \<Rightarrow> Inr (required @ picked))"

text \<open>
  \<^verbatim>\<open>getPreferredAllocation\<close>. The topology-aligned allocation is the work of an external
  allocator over the driver's link information; it is a parameter here.
\<close>

definition getPreferredAllocation ::
  "(string list \<Rightarrow> string list \<Rightarrow> int \<Rightarrow> error + string list) \<Rightarrow> go_runtime
     \<Rightarrow> NvidiaDevicePlugin \<Rightarrow> string list \<Rightarrow> string list \<Rightarrow> int \<Rightarrow> error + string list" where
  "getPreferredAllocation alignedAlloc rt plugin availableDeviceIDs mustIncludeDeviceIDs allocationSize =
     (if AlignedAllocationSupported (devices plugin) \<and> \<not> AnyHasAnnotations availableDeviceIDs
      then alignedAlloc availableDeviceIDs mustIncludeDeviceIDs allocationSize
      else distributedAlloc rt plugin availableDeviceIDs mustIncludeDeviceIDs allocationSize)"

section \<open>The replica-distributed policy, as the specification words it\<close>

text \<open>
  The ids a request can be served from: the available ids that the inventory knows and
  that are not required already.
\<close>

definition satisfiable :: "NvidiaDevicePlugin \<Rightarrow> string list \<Rightarrow> string list \<Rightarrow> string set" where
  "satisfiable plugin avail required =
     {i \<in> set avail. i \<in> fst ` set (devices plugin) \<and> i \<notin> set required}"

text \<open>
  Greedy picking: each pick is a remaining candidate whose base id has the smallest
  \<open>total - available\<close> among the remaining candidates; it is removed and the available
  counter of its base id goes down by one.
\<close>

definition decrement :: "(string \<rightharpoonup> replica) \<Rightarrow> string \<Rightarrow> (string \<rightharpoonup> replica)" where
  "decrement replicas c =
     (case replicas (GetID c) of
        None \<Rightarrow> replicas
      | Some r \<Rightarrow> replicas(GetID c \<mapsto> r\<lparr>available := available r - 1\<rparr>))"

inductive greedy_picks :: "(string \<rightharpoonup> replica) \<Rightarrow> string multiset \<Rightarrow> string list \<Rightarrow> bool" where
  greedy_done: "greedy_picks replicas remaining []"
| greedy_pick:
    "c \<in># remaining \<Longrightarrow> replicas (GetID c) \<noteq> None \<Longrightarrow>
     (\<forall>x \<in># remaining. skew replicas c \<le> skew replicas x) \<Longrightarrow>
     greedy_picks (decrement replicas c) (remaining - {#c#}) picks \<Longrightarrow>
     greedy_picks replicas remaining (c # picks)"

text \<open>
  The table after a list of picks, and the fairness of a list of picks: when the base id
  of pick \<open>i\<close> is picked again at step \<open>j\<close>, every other base id that had a candidate left
  at step \<open>i\<close>, with a skew no larger than that of pick \<open>i\<close> then, is picked in between.
\<close>

definition table_after :: "(string \<rightharpoonup> replica) \<Rightarrow> string list \<Rightarrow> (string \<rightharpoonup> replica)" where
  "table_after replicas picks = foldl decrement replicas picks"

definition no_early_reselection ::
  "(string \<rightharpoonup> replica) \<Rightarrow> string multiset \<Rightarrow> string list \<Rightarrow> bool" where
  "no_early_reselection replicas cands picks =
     (\<forall>i j. i < j \<and> j < length picks \<and> GetID (picks ! j) = GetID (picks ! i) \<longrightarrow>
        (\<forall>c \<in># cands - mset (take i picks).
           GetID c \<noteq> GetID (picks ! i) \<and>
           skew (table_after replicas (take i picks)) c
             \<le> skew (table_after replicas (take i picks)) (picks ! i) \<longrightarrow>
           (\<exists>k. i < k \<and> k < j \<and> GetID (picks ! k) = GetID c)))"

section \<open>The serving loop and its crash-loop protection (Serve)\<close>

text \<open>
  The goroutine started by \<^verbatim>\<open>Serve\<close>. Times are readings of the monotonic clock in
  nanoseconds; \<^verbatim>\<open>time.Since(lastCrashTime).Seconds() > 3600\<close> holds exactly when more than
  \<open>3600 * 10^9\<close> nanoseconds have passed. The loop is fed with what each call of
  \<^verbatim>\<open>plugin.server.Serve\<close> does: it fails at some time, or it returns without error.
  One clock reading stands for the two the code takes at a failure.
\<close>

definition seconds :: "int \<Rightarrow> int" where
  "seconds n = n * 1000000000"

record crash_state =
  restartCount :: int
  lastCrashTime :: int

datatype serve_event = Crashed int | Returned

text \<open>
  The loop ends with \<^verbatim>\<open>Logger.Fatal\<close> (the process exits), or with \<^verbatim>\<open>break\<close> when
  \<^verbatim>\<open>Serve\<close> returned without error; with no further event the server is inside
  \<^verbatim>\<open>Serve\<close>, in the state reached.
\<close>

datatype serve_outcome = Fatal | Stopped | Serving crash_state

definition after_crash :: "crash_state \<Rightarrow> int \<Rightarrow> crash_state" where
  "after_crash st now =
     (let timeSinceLastCrash = now - lastCrashTime st
      in \<lparr>restartCount = (if timeSinceLastCrash > seconds 3600 then 0 else restartCount st + 1),
          lastCrashTime = now\<rparr>)"

fun serve_loop :: "crash_state \<Rightarrow> serve_event list \<Rightarrow> serve_outcome" where
  "serve_loop st [] = (if restartCount st > 5 then Fatal else Serving st)"
| "serve_loop st (e # evs) =
     (if restartCount st > 5 then Fatal
      else case e of
             Returned \<Rightarrow> Stopped
           | Crashed now \<Rightarrow> serve_loop (after_crash st now) evs)"

definition Serve_goroutine :: "int \<Rightarrow> serve_event list \<Rightarrow> serve_outcome" where
  "Serve_goroutine start evs = serve_loop \<lparr>restartCount = 0, lastCrashTime = start\<rparr> evs"

text \<open>
  Failure times each more than an hour after the one before (the first after \<open>prev\<close>),
  and failure times each at most an hour after the one before.
\<close>

fun spaced_over_an_hour :: "int \<Rightarrow> int list \<Rightarrow> bool" where
  "spaced_over_an_hour prev [] = True"
| "spaced_over_an_hour prev (t # ts) = (t - prev > seconds 3600 \<and> spaced_over_an_hour t ts)"

fun spaced_within_an_hour :: "int \<Rightarrow> int list \<Rightarrow> bool" where
  "spaced_within_an_hour prev [] = True"
| "spaced_within_an_hour prev (t # ts) = (t - prev \<le> seconds 3600 \<and> spaced_within_an_hour t ts)"

text \<open>
  The count of the specification: how many failures at the end of the sequence came each
  at most an hour after the event before it, which is the failure before or, for the
  first failure, the start of the loop. The list pairs every failure with that event.
\<close>

definition counted_failures :: "int \<Rightarrow> int list \<Rightarrow> nat" where
  "counted_failures start ts =
     length (takeWhile (\<lambda>(prev, t). t - prev \<le> seconds 3600) (rev (zip (start # ts) ts)))"

section \<open>The wildcard matcher of the Device Map builder (device/device_map.go)\<close>

text \<open>
  \<^verbatim>\<open>strings.Split(s, sep)\<close>: the pieces of \<open>s\<close> between the occurrences of \<open>sep\<close>, found
  from the left. Its recursion ends because a found separator takes at least one byte away.
\<close>

lemma strings_Index_bound: "strings_Index s sep = Some m \<Longrightarrow> m + length sep \<le> length s"
proof (induction s arbitrary: m)
  case Nil
  then show ?case by (simp split: if_splits)
next
  case (Cons c s)
  show ?case
  proof (cases "prefix sep (c # s)")
    case True
    with Cons.prems have "m = 0" by simp
    with prefix_length_le [OF True] show ?thesis by simp
  next
    case False
    with Cons.prems obtain m' where "strings_Index s sep = Some m'" "m = Suc m'" by auto
    with Cons.IH [of m'] show ?thesis by simp
  qed
qed

text \<open>
  With the empty separator Go cuts after every character (every byte of ASCII text); the
  code only splits at \<^verbatim>\<open>*\<close>, and the model of \<^verbatim>\<open>filepath.Clean\<close> at the slash.
\<close>

function strings_Split :: "string \<Rightarrow> string \<Rightarrow> string list" where
  "strings_Split s sep =
     (if sep = [] then map (\<lambda>c. [c]) s
      else case strings_Index s sep of
             None \<Rightarrow> [s]
           | Some m \<Rightarrow> take m s # strings_Split (drop (m + length sep) s) sep)"
  by pat_completeness auto
termination
proof (relation "measure (\<lambda>(s, sep). length s)")
  show "wf (measure (\<lambda>(s, sep). length s))" by simp
next
  fix s sep :: string and m
  assume "sep \<noteq> []" "strings_Index s sep = Some m"
  then have "m + length sep \<le> length s" "0 < length sep"
    by (simp_all add: strings_Index_bound)
  then have "length s - (m + length sep) < length s" by arith
  then show "((drop (m + length sep) s, sep), (s, sep)) \<in> measure (\<lambda>(s, sep). length s)"
    by simp
qed

declare strings_Split.simps [simp del]

text \<open>
  \<^verbatim>\<open>regexp.QuoteMeta\<close>: a backslash before each of the bytes \<^verbatim>\<open>\.+*?()|[]{}^$\<close>.
\<close>

definition backslash :: char where
  "backslash = CHR 0x5C"

definition newline :: char where
  "newline = CHR 0x0A"

definition special :: "char \<Rightarrow> bool" where
  "special b = (b \<in> set (backslash # ''.+*?()|[]{}^$''))"

fun QuoteMeta :: "string \<Rightarrow> string" where
  "QuoteMeta [] = []"
| "QuoteMeta (b # s) = (if special b then backslash # b # QuoteMeta s else b # QuoteMeta s)"

text \<open>
  \<^verbatim>\<open>wildCardToRegexp\<close>: the loop over the pieces of the pattern between its stars, with
  its index \<open>i\<close> and the string builder \<open>result\<close>.
\<close>

fun wildCardToRegexp_loop :: "nat \<Rightarrow> string list \<Rightarrow> string \<Rightarrow> string" where
  "wildCardToRegexp_loop i [] result = result"
| "wildCardToRegexp_loop i (literal # rest) result =
     wildCardToRegexp_loop (i + 1) rest
       ((if i > 0 then result @ ''.*'' else result) @ QuoteMeta literal)"

definition wildCardToRegexp :: "string \<Rightarrow> string" where
  "wildCardToRegexp pattern = wildCardToRegexp_loop 0 (strings_Split pattern ''*'') []"

text \<open>
  Go's \<^verbatim>\<open>regexp\<close> package, for the expressions that \<^verbatim>\<open>wildCardToRegexp\<close> can produce: a
  sequence of items, each a literal character or the dot, alone or under a star. In Go's
  syntax a backslash makes the punctuation character after it a literal, a dot stands
  for any character but the newline, and every other character outside \<^verbatim>\<open>()|^$[*+?{\<close>
  stands for itself. The parser refuses all other syntax (lemma \<open>parse_items_encoded\<close>
  shows that no pattern leads there).

  The parser reads its pattern rune by rune and refuses a pattern that is not valid
  UTF-8 (\<open>regexp_parse\<close> below). \<open>utf8_ValidString\<close> is \<^verbatim>\<open>utf8.ValidString\<close>: one byte
  below \<open>0x80\<close>, or a lead byte with the continuation bytes its range asks for (no
  overlong form, no surrogate, nothing above \<open>U+10FFFF\<close>).
\<close>

definition byte_in :: "char \<Rightarrow> nat \<Rightarrow> nat \<Rightarrow> bool" where
  "byte_in c lo hi = (lo \<le> of_char c \<and> of_char c \<le> hi)"

fun utf8_ValidString :: "string \<Rightarrow> bool" where
  "utf8_ValidString [] = True"
| "utf8_ValidString (b # s) =
     (if byte_in b 0x00 0x7F then utf8_ValidString s
      else if byte_in b 0xC2 0xDF then
        (case s of
           c1 # s1 \<Rightarrow> byte_in c1 0x80 0xBF \<and> utf8_ValidString s1
         | _ \<Rightarrow> False)
      else if byte_in b 0xE0 0xEF then
        (case s of
           c1 # c2 # s2 \<Rightarrow>
             byte_in c1 (if byte_in b 0xE0 0xE0 then 0xA0 else 0x80)
                        (if byte_in b 0xED 0xED then 0x9F else 0xBF)
             \<and> byte_in c2 0x80 0xBF \<and> utf8_ValidString s2
         | _ \<Rightarrow> False)
      else if byte_in b 0xF0 0xF4 then
        (case s of
           c1 # c2 # c3 # s3 \<Rightarrow>
             byte_in c1 (if byte_in b 0xF0 0xF0 then 0x90 else 0x80)
                        (if byte_in b 0xF4 0xF4 then 0x8F else 0xBF)
             \<and> byte_in c2 0x80 0xBF \<and> byte_in c3 0x80 0xBF \<and> utf8_ValidString s3
         | _ \<Rightarrow> False)
      else False)"

datatype re_atom = Lit char | AnyNotNL

datatype re_item = Single re_atom | Many re_atom

definition isalnum :: "char \<Rightarrow> bool" where
  "isalnum c = (let n = (of_char c :: nat) in
     (48 \<le> n \<and> n \<le> 57) \<or> (65 \<le> n \<and> n \<le> 90) \<or> (97 \<le> n \<and> n \<le> 122))"

fun parse_atom :: "string \<Rightarrow> (re_atom \<times> string) option" where
  "parse_atom [] = None"
| "parse_atom (c # s) =
     (if c = backslash then
        (case s of
           [] \<Rightarrow> None
         | d # s' \<Rightarrow> if (of_char d :: nat) < 128 \<and> \<not> isalnum d then Some (Lit d, s') else None)
      else if c = CHR ''.'' then Some (AnyNotNL, s)
      else if c \<in> set ''()|^$[*+?{'' then None
      else Some (Lit c, s))"

lemma parse_atom_shorter: "parse_atom s = Some (a, rest) \<Longrightarrow> length rest < length s"
  by (cases s) (auto split: if_splits list.splits)

function parse_items :: "string \<Rightarrow> re_item list option" where
  "parse_items s =
     (if s = [] then Some []
      else case parse_atom s of
             None \<Rightarrow> None
           | Some (a, rest) \<Rightarrow>
               (case rest of
                  [] \<Rightarrow> Some [Single a]
                | c # rest' \<Rightarrow>
                    if c = CHR ''*'' then map_option (Cons (Many a)) (parse_items rest')
                    else map_option (Cons (Single a)) (parse_items rest)))"
  by pat_completeness auto
termination
  by (relation "measure length") (auto dest: parse_atom_shorter)

declare parse_items.simps [simp del]

definition regexp_parse :: "string \<Rightarrow> re_item list option" where
  "regexp_parse pattern = (if utf8_ValidString pattern then parse_items pattern else None)"

text \<open>
  Matching. \<open>match_here\<close>: the expression matches a prefix of the string.
  \<^verbatim>\<open>regexp.MatchString\<close> reports whether the string contains any match of the
  expression: the expression is not anchored, so a match may start at any position and
  end before the end of the string.

  Go matches rune by rune, the model byte by byte. For a pattern of ASCII characters the
  two agree on every string, valid UTF-8 or not: a byte below \<open>0x80\<close> always is a rune of
  its own, a literal of the pattern matches that rune only, and the dot matches every
  other rune just as it matches each of its bytes. On other patterns the two can come
  apart (Go matches the replacement character \<open>U+FFFD\<close> of a pattern also against the
  bytes of the string that are no rune); the theorems below are about ASCII patterns.
\<close>

fun atom_matches :: "re_atom \<Rightarrow> char \<Rightarrow> bool" where
  "atom_matches (Lit c) d = (c = d)"
| "atom_matches AnyNotNL d = (d \<noteq> newline)"

fun match_here :: "re_item list \<Rightarrow> string \<Rightarrow> bool" where
  "match_here [] s = True"
| "match_here (Single a # r) [] = False"
| "match_here (Single a # r) (c # s) = (atom_matches a c \<and> match_here r s)"
| "match_here (Many a # r) [] = match_here r []"
| "match_here (Many a # r) (c # s) =
     (match_here r (c # s) \<or> (atom_matches a c \<and> match_here (Many a # r) s))"

fun match_anywhere :: "re_item list \<Rightarrow> string \<Rightarrow> bool" where
  "match_anywhere re [] = match_here re []"
| "match_anywhere re (c # s) = (match_here re (c # s) \<or> match_anywhere re s)"

text \<open>The error of \<^verbatim>\<open>regexp.MatchString\<close> for a pattern it refuses, whatever its code.\<close>

datatype regexp_error = RegexpError string

definition regexp_MatchString :: "string \<Rightarrow> string \<Rightarrow> regexp_error + bool" where
  "regexp_MatchString pattern s =
     (case regexp_parse pattern of
        None \<Rightarrow> Inl (RegexpError pattern)
      | Some re \<Rightarrow> Inr (match_anywhere re s))"

text \<open>
  The test of \<^verbatim>\<open>buildGPUDeviceMap\<close> and \<^verbatim>\<open>buildMigDeviceMap\<close> for one descriptor:
  \<^verbatim>\<open>regexp.MatchString(wildCardToRegexp(string(resource.Pattern)), name)\<close>.
\<close>

definition pattern_matches :: "string \<Rightarrow> string \<Rightarrow> regexp_error + bool" where
  "pattern_matches pattern name = regexp_MatchString (wildCardToRegexp pattern) name"

text \<open>
  Glob semantics, as the specification words them: the whole string matches the pattern,
  where a star matches any substring and every other character matches itself. The
  parameter says which characters a star may absorb: all of them in the specification.
  \<open>ascii\<close>: a string of ASCII characters only.
\<close>

definition ascii :: "string \<Rightarrow> bool" where
  "ascii s = (\<forall>c \<in> set s. (of_char c :: nat) < 128)"

fun glob_match :: "(char \<Rightarrow> bool) \<Rightarrow> string \<Rightarrow> string \<Rightarrow> bool" where
  "glob_match absorbs [] s = (s = [])"
| "glob_match absorbs (p # ps) [] = (p = CHR ''*'' \<and> glob_match absorbs ps [])"
| "glob_match absorbs (p # ps) (c # cs) =
     (if p = CHR ''*''
      then glob_match absorbs ps (c # cs) \<or> (absorbs c \<and> glob_match absorbs (p # ps) cs)
      else c = p \<and> glob_match absorbs ps cs)"

section \<open>The Device Map builder (device/device_map.go, device/devices.go)\<close>

text \<open>
  A resource descriptor (\<^verbatim>\<open>resource.Resource\<close>), and what the device-query adapter
  reports for one unit: every read either gives a value or fails (\<open>None\<close>). A whole
  device carries its name, whether partitioning is enabled on it, the reads of
  \<^verbatim>\<open>deviceInfo\<close> and its sub-partitions; a sub-partition carries its profile string
  and the reads of \<^verbatim>\<open>deviceInfo\<close>. The sub-partitions of a device are listed by slot:
  a slot that holds none is \<open>None\<close>.
\<close>

record Resource =
  Pattern :: string
  Name :: string

record deviceInfo =
  GetUUID :: "string option"
  GetPaths :: "string list option"
  GetNumaNode :: "(bool \<times> int) option"
  GetTotalMemory :: "nat option"
  GetComputeCapability :: "string option"

record mig_unit =
  GetProfile :: "string option"
  mig_info :: deviceInfo

record gpu_unit =
  GetName :: "string option"
  IsMigEnabled :: "bool option"
  gpu_info :: deviceInfo
  MigDevices :: "mig_unit option list"

text \<open>
  The device library behind the builder (\<^verbatim>\<open>device.New(nvmllib)\<close> of go-nvlib, which is
  not part of this repository): the devices of the driver, in the order of their driver
  index, and the product names that the library leaves out of every walk (in go-nvlib
  \<^verbatim>\<open>DGX Display\<close> and \<^verbatim>\<open>NVIDIA DGX Display\<close>).
\<close>

record devicelib =
  nvml_devices :: "gpu_unit list"
  skippedDevices :: "string list"

text \<open>
  The errors of a build, one constructor for each \<^verbatim>\<open>fmt.Errorf\<close> of the builder, and
  \<open>ErrIsSkipped\<close> for the library failing to read the name of a device before the visit.
\<close>

datatype build_error =
    ErrGetUUID | ErrGetPaths | ErrGetNumaNode | ErrGetTotalMemory | ErrGetComputeCapability
  | ErrBuildingDevice build_error
  | ErrGetName
  | ErrIsSkipped
  | ErrIsMigEnabled
  | ErrGetProfile nat nat
  | ErrMatching regexp_error
  | ErrNoMatch string
  | ErrInvalidStrategy string

text \<open>\<^verbatim>\<open>type DeviceMap map[string]Devices\<close>\<close>

type_synonym DeviceMap = "(string \<times> Devices) list"

text \<open>
  \<^verbatim>\<open>BuildDevice\<close>: the five reads in the order of the source, the first failure
  returning its error.
\<close>

definition BuildDevice :: "string \<Rightarrow> deviceInfo \<Rightarrow> build_error + Device" where
  "BuildDevice index d =
     (case GetUUID d of
        None \<Rightarrow> Inl ErrGetUUID
      | Some uuid \<Rightarrow>
     (case GetPaths d of
        None \<Rightarrow> Inl ErrGetPaths
      | Some paths \<Rightarrow>
     (case GetNumaNode d of
        None \<Rightarrow> Inl ErrGetNumaNode
      | Some (hasNuma, numa) \<Rightarrow>
     (case GetTotalMemory d of
        None \<Rightarrow> Inl ErrGetTotalMemory
      | Some totalMemory \<Rightarrow>
     (case GetComputeCapability d of
        None \<Rightarrow> Inl ErrGetComputeCapability
      | Some computeCapability \<Rightarrow>
          Inr \<lparr>ID = uuid, Health = ''Healthy'',
               Topology = (if hasNuma then Some numa else None),
               Paths = paths, Index = index, TotalMemory = totalMemory,
               ComputeCapability = computeCapability, Replicas = 0\<rparr>)))))"

text \<open>
  \<^verbatim>\<open>setEntry\<close>: builds the device and stores it under its id in the inventory of the
  resource, creating that inventory when it is missing. The map is passed in and
  returned, the Go code updates it in place.
\<close>

definition setEntry ::
  "DeviceMap \<Rightarrow> string \<Rightarrow> string \<Rightarrow> deviceInfo \<Rightarrow> DeviceMap \<times> build_error option" where
  "setEntry d name index device =
     (case BuildDevice index device of
        Inl err \<Rightarrow> (d, Some (ErrBuildingDevice err))
      | Inr dev \<Rightarrow>
          (let inner = (case map_of d name of None \<Rightarrow> [] | Some ds \<Rightarrow> ds)
           in (AList.update name (AList.update (ID dev) dev inner) d, None)))"

text \<open>
  The loop over \<^verbatim>\<open>b.resources\<close> in the visitor: the first descriptor whose pattern
  accepts the name gets the unit; when none does, the unit is an error.
\<close>

fun classify ::
  "Resource list \<Rightarrow> DeviceMap \<Rightarrow> string \<Rightarrow> string \<Rightarrow> deviceInfo
     \<Rightarrow> DeviceMap \<times> build_error option" where
  "classify [] devs name index info = (devs, Some (ErrNoMatch name))"
| "classify (r # rs) devs name index info =
     (case pattern_matches (Pattern r) name of
        Inl err \<Rightarrow> (devs, Some (ErrMatching err))
      | Inr b \<Rightarrow>
          if b then setEntry devs (Name r) index info
          else classify rs devs name index info)"

text \<open>
  The two visitors, for whole devices (\<^verbatim>\<open>buildGPUDeviceMap\<close>) and for sub-partitions
  (\<^verbatim>\<open>buildMigDeviceMap\<close>); the index of a unit is \<^verbatim>\<open>fmt.Sprintf("%v", i)\<close>, of a
  sub-partition \<^verbatim>\<open>fmt.Sprintf("%v:%v", i, j)\<close>.
\<close>

record deviceMapBuilder =
  migStrategy :: string
  resources :: "Resource list"

definition visit_gpu ::
  "deviceMapBuilder \<Rightarrow> DeviceMap \<Rightarrow> nat \<Rightarrow> gpu_unit \<Rightarrow> DeviceMap \<times> build_error option" where
  "visit_gpu b devs i gpu =
     (case GetName gpu of
        None \<Rightarrow> (devs, Some ErrGetName)
      | Some name \<Rightarrow>
     (case IsMigEnabled gpu of
        None \<Rightarrow> (devs, Some ErrIsMigEnabled)
      | Some migEnabled \<Rightarrow>
          if migEnabled \<and> migStrategy b \<noteq> ''none'' then (devs, None)
          else classify (resources b) devs name (decimal i) (gpu_info gpu)))"

definition visit_mig ::
  "deviceMapBuilder \<Rightarrow> DeviceMap \<Rightarrow> nat \<Rightarrow> nat \<Rightarrow> mig_unit \<Rightarrow> DeviceMap \<times> build_error option" where
  "visit_mig b devs i j mig =
     (case GetProfile mig of
        None \<Rightarrow> (devs, Some (ErrGetProfile i j))
      | Some migProfile \<Rightarrow>
          classify (resources b) devs migProfile (decimal i @ '':'' @ decimal j) (mig_info mig))"

text \<open>
  \<^verbatim>\<open>VisitDevices\<close> and \<^verbatim>\<open>VisitMigDevices\<close> of the device library. \<^verbatim>\<open>VisitDevices\<close> walks
  the devices by driver index \<open>i\<close>: it reads the name of the device, leaves the device
  out when the name is one of the skipped names, and calls the visitor with the driver
  index otherwise; it stops at the first error. \<^verbatim>\<open>VisitMigDevices\<close> walks the slots
  \<open>j\<close> of every device that \<^verbatim>\<open>VisitDevices\<close> visits and calls the visitor on the slots
  that hold a sub-partition. The library wraps the error of the visitor in a message of
  its own; the model returns the error of the visitor. The enumeration itself (the
  device count, the handles, the test for the capability to partition) is taken to
  succeed.
\<close>

fun VisitDevices_loop ::
  "string list \<Rightarrow> (DeviceMap \<Rightarrow> nat \<Rightarrow> gpu_unit \<Rightarrow> DeviceMap \<times> build_error option) \<Rightarrow> nat
     \<Rightarrow> gpu_unit list \<Rightarrow> DeviceMap \<Rightarrow> DeviceMap \<times> build_error option" where
  "VisitDevices_loop skipped visit i [] devs = (devs, None)"
| "VisitDevices_loop skipped visit i (gpu # gpus) devs =
     (case GetName gpu of
        None \<Rightarrow> (devs, Some ErrIsSkipped)
      | Some name \<Rightarrow>
          if name \<in> set skipped then VisitDevices_loop skipped visit (i + 1) gpus devs
          else (case visit devs i gpu of
                  (devs', Some err) \<Rightarrow> (devs', Some err)
                | (devs', None) \<Rightarrow> VisitDevices_loop skipped visit (i + 1) gpus devs'))"

definition VisitDevices ::
  "devicelib \<Rightarrow> (DeviceMap \<Rightarrow> nat \<Rightarrow> gpu_unit \<Rightarrow> DeviceMap \<times> build_error option)
     \<Rightarrow> DeviceMap \<Rightarrow> DeviceMap \<times> build_error option" where
  "VisitDevices lib visit devs =
     VisitDevices_loop (skippedDevices lib) visit 0 (nvml_devices lib) devs"

fun VisitMigs ::
  "(DeviceMap \<Rightarrow> nat \<Rightarrow> nat \<Rightarrow> mig_unit \<Rightarrow> DeviceMap \<times> build_error option) \<Rightarrow> nat \<Rightarrow> nat
     \<Rightarrow> mig_unit option list \<Rightarrow> DeviceMap \<Rightarrow> DeviceMap \<times> build_error option" where
  "VisitMigs visit i j [] devs = (devs, None)"
| "VisitMigs visit i j (slot # slots) devs =
     (case slot of
        None \<Rightarrow> VisitMigs visit i (j + 1) slots devs
      | Some mig \<Rightarrow>
          (case visit devs i j mig of
             (devs', Some err) \<Rightarrow> (devs', Some err)
           | (devs', None) \<Rightarrow> VisitMigs visit i (j + 1) slots devs'))"

definition VisitMigDevices ::
  "devicelib \<Rightarrow> (DeviceMap \<Rightarrow> nat \<Rightarrow> nat \<Rightarrow> mig_unit \<Rightarrow> DeviceMap \<times> build_error option)
     \<Rightarrow> DeviceMap \<Rightarrow> DeviceMap \<times> build_error option" where
  "VisitMigDevices lib visit devs =
     VisitDevices lib (\<lambda>devs i gpu. VisitMigs visit i 0 (MigDevices gpu) devs) devs"

text \<open>
  The builds. Both return the map they have filled so far together with the error of
  the visit (\<^verbatim>\<open>return devices, err\<close>); \<^verbatim>\<open>build\<close> returns a nil map for an unknown
  strategy. The builder embeds the device library; the model passes it beside the
  builder.
\<close>

definition buildGPUDeviceMap :: "deviceMapBuilder \<Rightarrow> devicelib \<Rightarrow> DeviceMap \<times> build_error option" where
  "buildGPUDeviceMap b lib = VisitDevices lib (visit_gpu b) []"

definition buildMigDeviceMap :: "deviceMapBuilder \<Rightarrow> devicelib \<Rightarrow> DeviceMap \<times> build_error option" where
  "buildMigDeviceMap b lib = VisitMigDevices lib (visit_mig b) []"

definition build :: "deviceMapBuilder \<Rightarrow> devicelib \<Rightarrow> DeviceMap option \<times> build_error option" where
  "build b lib =
     (if migStrategy b = ''none'' then map_prod Some id (buildGPUDeviceMap b lib)
      else if migStrategy b = ''single'' then map_prod Some id (buildGPUDeviceMap b lib)
      else if migStrategy b = ''mixed'' then map_prod Some id (buildMigDeviceMap b lib)
      else (None, Some (ErrInvalidStrategy (migStrategy b))))"

definition NewDeviceMap ::
  "devicelib \<Rightarrow> Resource list \<Rightarrow> string \<Rightarrow> DeviceMap option \<times> build_error option" where
  "NewDeviceMap nvmllib rs strategy = build \<lparr>migStrategy = strategy, resources = rs\<rparr> nvmllib"

text \<open>
  A failing unit, as the specification words it: a unit fails when one of its reads
  fails or when no descriptor matches it. \<open>read_fails\<close>: one of the five property reads
  fails. \<open>matches_descriptor\<close>: the pattern of the descriptor matches the name, which for
  the matcher of the builder means that it fully matches some part of the name.
  \<open>gpu_unit_fails\<close>, for a build over whole devices: the name cannot be read; or the
  device is not one the library skips, and whether partitioning is enabled cannot be
  read; or the device is neither skipped nor left out for its partitioning (enabled,
  under a strategy other than \<open>none\<close>), and no descriptor matches its name or a property
  read fails. \<open>gpu_migs_fail\<close>, for a build over sub-partitions: the name of the device
  cannot be read, or the device is not skipped and one of its sub-partitions fails: its
  profile cannot be read, or no descriptor matches the profile, or a property read fails.
\<close>

definition read_fails :: "deviceInfo \<Rightarrow> bool" where
  "read_fails info =
     (GetUUID info = None \<or> GetPaths info = None \<or> GetNumaNode info = None \<or>
      GetTotalMemory info = None \<or> GetComputeCapability info = None)"






section \<open>The plugin manager (PluginManager)\<close>

text \<open>
  \<^verbatim>\<open>filepath.Join\<close> and \<^verbatim>\<open>filepath.Clean\<close> on a system whose separator is the slash.
  \<^verbatim>\<open>Clean\<close> drops empty elements and \<^verbatim>\<open>.\<close> elements, lets a \<^verbatim>\<open>..\<close> element take away the
  element before it (at the root it is dropped, at the start of a path without root it
  stays), and returns \<^verbatim>\<open>.\<close> for an empty result; \<^verbatim>\<open>Join\<close> joins the elements from the
  first non-empty one on with slashes and cleans the result.
\<close>

fun Clean_elements :: "bool \<Rightarrow> string list \<Rightarrow> string list \<Rightarrow> string list" where
  "Clean_elements rooted [] out = out"
| "Clean_elements rooted (e # es) out =
     (if e = [] \<or> e = ''.'' then Clean_elements rooted es out
      else if e = ''..'' then
        (if out \<noteq> [] \<and> last out \<noteq> ''..'' then Clean_elements rooted es (butlast out)
         else if rooted then Clean_elements rooted es out
         else Clean_elements rooted es (out @ [''..'']))
      else Clean_elements rooted es (out @ [e]))"

definition filepath_Clean :: "string \<Rightarrow> string" where
  "filepath_Clean path =
     (if path = [] then ''.''
      else let rooted = (hd path = CHR ''/'');
               out = Clean_elements rooted (strings_Split path ''/'') [];
               cleaned = (if rooted then ''/'' else []) @ strings_Join out ''/''
           in if cleaned = [] then ''.'' else cleaned)"

definition filepath_Join :: "string list \<Rightarrow> string" where
  "filepath_Join elem =
     (case dropWhile (\<lambda>e. e = []) elem of
        [] \<Rightarrow> []
      | e # es \<Rightarrow> filepath_Clean (strings_Join (e # es) ''/''))"

text \<open>
  \<^verbatim>\<open>NewNvidiaDevicePlugin\<close>, which never fails; the socket is named after the part of
  the resource name behind the slash, in the directory \<^verbatim>\<open>pluginapi.DevicePluginPath\<close>.
  The stop channel of a new server is open.
\<close>

definition GetResourceName :: "string \<Rightarrow> string" where
  "GetResourceName rm = (case strings_SplitN2 rm ''/'' of [a, b] \<Rightarrow> b | _ \<Rightarrow> rm)"

definition DevicePluginPath :: string where
  "DevicePluginPath = ''/var/lib/kubelet/device-plugins/''"

definition NewNvidiaDevicePlugin :: "string \<Rightarrow> Devices \<Rightarrow> NvidiaDevicePlugin" where
  "NewNvidiaDevicePlugin name devs =
     (let pluginName = ''nvidia-'' @ GetResourceName name;
          pluginPath = filepath_Join [DevicePluginPath, pluginName]
      in \<lparr>resourceName = name, devices = devs, socket = pluginPath @ ''.sock'',
          stop_closed = False\<rparr>)"

text \<open>
  Starting and stopping one server. \<^verbatim>\<open>cleanup\<close> closes the channel \<^verbatim>\<open>stop\<close>; closing a
  closed channel is a run-time panic in Go, which nothing in the program recovers.
\<close>

datatype panic = CloseOfClosedChannel

definition cleanup :: "NvidiaDevicePlugin \<Rightarrow> panic + NvidiaDevicePlugin" where
  "cleanup plugin =
     (if stop_closed plugin then Inl CloseOfClosedChannel
      else Inr (plugin\<lparr>stop_closed := True\<rparr>))"

text \<open>
  What is decided outside the program: how \<^verbatim>\<open>Serve\<close> and \<^verbatim>\<open>Register\<close> of a server go
  (listening on and dialling the socket, the registration with the node agent), and
  whether \<^verbatim>\<open>os.Remove\<close> of its socket fails with an error other than the file not
  existing.
\<close>

datatype start_outcome = ServeFails | RegisterFails | Registers

record plugin_env =
  Serve_Register :: "NvidiaDevicePlugin \<Rightarrow> start_outcome"
  Remove_fails :: "NvidiaDevicePlugin \<Rightarrow> bool"

text \<open>
  \<^verbatim>\<open>Stop\<close> and \<^verbatim>\<open>Start\<close> return the server as they leave it and whether they return an
  error, or they panic. The server of a plugin made by \<^verbatim>\<open>NewNvidiaDevicePlugin\<close> is
  never nil, so \<^verbatim>\<open>Stop\<close> always gets past its first test. \<^verbatim>\<open>Stop\<close> returns the error of
  \<^verbatim>\<open>os.Remove\<close> before it reaches \<^verbatim>\<open>cleanup\<close>. \<^verbatim>\<open>Start\<close> calls \<^verbatim>\<open>cleanup\<close> when \<^verbatim>\<open>Serve\<close>
  fails and \<^verbatim>\<open>Stop\<close> when \<^verbatim>\<open>Register\<close> fails, and returns an error in both cases.
\<close>

definition Stop :: "plugin_env \<Rightarrow> NvidiaDevicePlugin \<Rightarrow> panic + NvidiaDevicePlugin \<times> bool" where
  "Stop env plugin =
     (if Remove_fails env plugin then Inr (plugin, True)
      else case cleanup plugin of
             Inl e \<Rightarrow> Inl e
           | Inr plugin' \<Rightarrow> Inr (plugin', False))"

definition Start :: "plugin_env \<Rightarrow> NvidiaDevicePlugin \<Rightarrow> panic + NvidiaDevicePlugin \<times> bool" where
  "Start env plugin =
     (case Serve_Register env plugin of
        ServeFails \<Rightarrow>
          (case cleanup plugin of
             Inl e \<Rightarrow> Inl e
           | Inr plugin' \<Rightarrow> Inr (plugin', True))
      | RegisterFails \<Rightarrow>
          (case Stop env plugin of
             Inl e \<Rightarrow> Inl e
           | Inr (plugin', err) \<Rightarrow> Inr (plugin', True))
      | Registers \<Rightarrow> Inr (plugin, False))"

text \<open>
  The fields of \<^verbatim>\<open>PluginManager\<close> that the loading and starting of plugins read and
  write, under the prefix \<open>pm\<close> (records above have fields of the same names);
  \<open>pm_devices\<close> is \<open>None\<close> while the device map is nil, \<open>pm_nvmllib\<close> stands for the
  device library over what the driver reports, \<open>pm_restartTimeout\<close> says whether the
  retry timer is set.
\<close>

record PluginManager =
  pm_migStrategy :: string
  pm_devices :: "DeviceMap option"
  pm_nvmllib :: devicelib
  pm_resources :: "Resource list"
  pm_plugins :: "NvidiaDevicePlugin list"
  pm_started :: bool
  pm_restart :: bool
  pm_restartTimeout :: bool

text \<open>
  What a pass does to the servers is the list of the calls it makes, in order, each with
  the server as it is when called; the servers of the manager are objects that the calls
  change in place, so a pass returns the list of the servers as it leaves them. A panic
  of a call ends the pass (and the program). An error of \<^verbatim>\<open>Stop\<close> is logged and
  changes nothing.
\<close>

datatype plugin_call = StartCall NvidiaDevicePlugin | StopCall NvidiaDevicePlugin

fun stopPlugins ::
  "plugin_env \<Rightarrow> NvidiaDevicePlugin list
     \<Rightarrow> panic + NvidiaDevicePlugin list \<times> plugin_call list" where
  "stopPlugins env [] = Inr ([], [])"
| "stopPlugins env (p # ps) =
     (if length (devices p) = 0 then
        (case stopPlugins env ps of
           Inl e \<Rightarrow> Inl e
         | Inr (ps', calls) \<Rightarrow> Inr (p # ps', calls))
      else
        (case Stop env p of
           Inl e \<Rightarrow> Inl e
         | Inr (p', err) \<Rightarrow>
             (case stopPlugins env ps of
                Inl e \<Rightarrow> Inl e
              | Inr (ps', calls) \<Rightarrow> Inr (p' # ps', StopCall p # calls))))"

text \<open>
  The loop of \<^verbatim>\<open>startPlugins\<close> with its variables \<open>started\<close> and \<open>restart\<close>: it leaves out
  the servers without devices and breaks at the first \<^verbatim>\<open>Start\<close> that returns an error.
\<close>

fun startPlugins_loop ::
  "plugin_env \<Rightarrow> NvidiaDevicePlugin list \<Rightarrow> nat \<Rightarrow> plugin_call list
     \<Rightarrow> panic + NvidiaDevicePlugin list \<times> nat \<times> bool \<times> plugin_call list" where
  "startPlugins_loop env [] started calls = Inr ([], started, False, calls)"
| "startPlugins_loop env (p # ps) started calls =
     (if length (devices p) = 0 then
        (case startPlugins_loop env ps started calls of
           Inl e \<Rightarrow> Inl e
         | Inr (ps', result) \<Rightarrow> Inr (p # ps', result))
      else
        (case Start env p of
           Inl e \<Rightarrow> Inl e
         | Inr (p', err) \<Rightarrow>
             if err then Inr (p' # ps, started, True, calls @ [StartCall p])
             else (case startPlugins_loop env ps (started + 1) (calls @ [StartCall p]) of
                     Inl e \<Rightarrow> Inl e
                   | Inr (ps', result) \<Rightarrow> Inr (p' # ps', result))))"

definition startPlugins ::
  "plugin_env \<Rightarrow> PluginManager \<Rightarrow> panic + PluginManager \<times> plugin_call list" where
  "startPlugins env p =
     (case (if pm_started p then stopPlugins env (pm_plugins p) else Inr (pm_plugins p, [])) of
        Inl e \<Rightarrow> Inl e
      | Inr (stopped, stops) \<Rightarrow>
          (case startPlugins_loop env stopped 0 stops of
             Inl e \<Rightarrow> Inl e
           | Inr (ps, started, restart, calls) \<Rightarrow>
               Inr (p\<lparr>pm_plugins := ps, pm_started := True,
                      pm_restartTimeout := (if restart then True else pm_restartTimeout p)\<rparr>,
                    calls)))"

text \<open>
  \<^verbatim>\<open>loadPlugins\<close>: on a build error it returns the error and touches nothing; otherwise
  it stores the map and appends one server for each of its resources, in map order.
\<close>

definition loadPlugins :: "go_runtime \<Rightarrow> PluginManager \<Rightarrow> PluginManager \<times> build_error option" where
  "loadPlugins rt p =
     (case NewDeviceMap (pm_nvmllib p) (pm_resources p) (pm_migStrategy p) of
        (dmp, Some err) \<Rightarrow> (p, Some err)
      | (dmp, None) \<Rightarrow>
          (let dm = (case dmp of None \<Rightarrow> [] | Some dm \<Rightarrow> dm);
               created = List.map_filter
                  (\<lambda>k. map_option (NewNvidiaDevicePlugin k) (map_of dm k))
                  (map_order rt (map fst dm))
           in (p\<lparr>pm_devices := dmp, pm_plugins := pm_plugins p @ created\<rparr>, None)))"

text \<open>
  The servers on which a list of calls invokes \<^verbatim>\<open>Start\<close>, in order, and whether the
  \<^verbatim>\<open>Start\<close> of a server returns without error in a given world.
\<close>

definition Start_invoked_on :: "plugin_call list \<Rightarrow> NvidiaDevicePlugin list" where
  "Start_invoked_on calls = concat (map (\<lambda>c. case c of StartCall p \<Rightarrow> [p] | StopCall p \<Rightarrow> []) calls)"

definition Start_succeeds :: "plugin_env \<Rightarrow> NvidiaDevicePlugin \<Rightarrow> bool" where
  "Start_succeeds env s = (Serve_Register env s = Registers)"

section \<open>Concrete inputs\<close>

text \<open>Two devices of one resource, used as a concrete inventory below.\<close>

definition whole_gpu :: "string \<Rightarrow> string \<Rightarrow> Device" where
  "whole_gpu uuid idx =
     \<lparr>ID = uuid, Health = ''Healthy'', Topology = None, Paths = [''/dev/nvidia'' @ idx],
      Index = idx, TotalMemory = 16384, ComputeCapability = ''8.0'', Replicas = 0\<rparr>"

definition two_gpu_plugin :: NvidiaDevicePlugin where
  "two_gpu_plugin =
     \<lparr>resourceName = ''nvidia.com/gpu'',
      devices = [(''GPU-a'', whole_gpu ''GPU-a'' ''0''), (''GPU-b'', whole_gpu ''GPU-b'' ''1'')],
      socket = ''/var/lib/kubelet/device-plugins/nvidia-gpu.sock'', stop_closed = False\<rparr>"

text \<open>
  A resource of two devices shared four ways each: eight replica ids over the base ids
  \<open>A\<close> and \<open>B\<close>.
\<close>

definition shared_gpu :: "string \<Rightarrow> string \<Rightarrow> Device" where
  "shared_gpu i idx =
     \<lparr>ID = i, Health = ''Healthy'', Topology = None, Paths = [''/dev/nvidia'' @ idx],
      Index = idx, TotalMemory = 16384, ComputeCapability = ''8.0'', Replicas = 4\<rparr>"

definition shared_plugin :: NvidiaDevicePlugin where
  "shared_plugin =
     \<lparr>resourceName = ''nvidia.com/gpu.shared'',
      devices = map (\<lambda>i. (i, shared_gpu i ''0'')) [''A::0'', ''A::1'', ''A::2'', ''A::3'']
              @ map (\<lambda>i. (i, shared_gpu i ''1'')) [''B::0'', ''B::1'', ''B::2'', ''B::3''],
      socket = ''/var/lib/kubelet/device-plugins/nvidia-gpu.shared.sock'',
      stop_closed = False\<rparr>"

definition all8 :: "string list" where
  "all8 = [''A::0'', ''A::1'', ''A::2'', ''A::3'', ''B::0'', ''B::1'', ''B::2'', ''B::3'']"

text \<open>A device under WSL, a MIG slice, and a stand-in for the external allocator.\<close>

definition wsl_gpu :: Device where
  "wsl_gpu = \<lparr>ID = ''GPU-w'', Health = ''Healthy'', Topology = None, Paths = [''/dev/dxg''],
      Index = ''0'', TotalMemory = 16384, ComputeCapability = ''8.0'', Replicas = 0\<rparr>"

definition mig_slice :: Device where
  "mig_slice = \<lparr>ID = ''MIG-m'', Health = ''Healthy'', Topology = None,
      Paths = [''/dev/nvidia0'', ''/dev/nvidia-caps/nvidia-cap12''],
      Index = ''0:1'', TotalMemory = 4096, ComputeCapability = ''8.0'', Replicas = 0\<rparr>"

definition first_n :: "string list \<Rightarrow> string list \<Rightarrow> int \<Rightarrow> error + string list" where
  "first_n avail required sz = Inr (take (nat sz) avail)"

text \<open>
  A server without devices, a manager over given devices and servers that has not
  started its servers, an adapter reporting two devices of which the descriptor pattern
  \<open>GPU\<close> accepts only the first, and worlds in which every \<^verbatim>\<open>Start\<close> succeeds, or every
  one but that of the resource \<^verbatim>\<open>nvidia.com/gpu\<close>, whose \<^verbatim>\<open>Serve\<close> fails.
\<close>

definition empty_plugin :: NvidiaDevicePlugin where
  "empty_plugin =
     \<lparr>resourceName = ''nvidia.com/mig-1g.5gb'', devices = [],
      socket = ''/var/lib/kubelet/device-plugins/nvidia-mig-1g.5gb.sock'', stop_closed = False\<rparr>"

definition library_of :: "gpu_unit list \<Rightarrow> devicelib" where
  "library_of gpus =
     \<lparr>nvml_devices = gpus, skippedDevices = [''DGX Display'', ''NVIDIA DGX Display'']\<rparr>"

definition gpu_descriptor :: Resource where
  "gpu_descriptor = \<lparr>Pattern = ''GPU'', Name = ''nvidia.com/gpu''\<rparr>"

definition manager_of :: "gpu_unit list \<Rightarrow> NvidiaDevicePlugin list \<Rightarrow> PluginManager" where
  "manager_of gpus ps =
     \<lparr>pm_migStrategy = ''none'', pm_devices = None, pm_nvmllib = library_of gpus,
      pm_resources = [gpu_descriptor],
      pm_plugins = ps, pm_started = False, pm_restart = False, pm_restartTimeout = False\<rparr>"

definition gpu_named :: "string \<Rightarrow> string \<Rightarrow> gpu_unit" where
  "gpu_named name uuid =
     \<lparr>GetName = Some name, IsMigEnabled = Some False,
      gpu_info = \<lparr>GetUUID = Some uuid, GetPaths = Some [''/dev/nvidia0''],
                  GetNumaNode = Some (False, 0), GetTotalMemory = Some 16384,
                  GetComputeCapability = Some ''8.6''\<rparr>,
      MigDevices = []\<rparr>"

definition laptop_and_tesla :: "gpu_unit list" where
  "laptop_and_tesla =
     [gpu_named ''NVIDIA RTX A2000 Laptop GPU'' ''GPU-0'', gpu_named ''Tesla T4'' ''GPU-1'']"

definition all_start :: plugin_env where
  "all_start = \<lparr>Serve_Register = (\<lambda>s. Registers), Remove_fails = (\<lambda>s. False)\<rparr>"

definition gpu_fails_to_serve :: plugin_env where
  "gpu_fails_to_serve =
     \<lparr>Serve_Register = (\<lambda>s. if resourceName s = ''nvidia.com/gpu'' then ServeFails else Registers),
      Remove_fails = (\<lambda>s. False)\<rparr>"

section \<open>Allocate: validation and the environment binding\<close>

lemma Contains_iff: "Contains ds ids \<longleftrightarrow> set ids \<subseteq> fst ` set ds"
  by (induction ids) (auto simp: map_of_eq_None_iff)

lemma Allocate_loop_ok:
  "list_all (Contains (devices plugin)) reqs \<Longrightarrow>
   Allocate_loop plugin reqs acc =
     Inr (acc @ map (\<lambda>req. \<lparr>Envs = [(''NVIDIA_VISIBLE_DEVICES'', strings_Join req '','')]\<rparr>) reqs)"
  by (induction reqs arbitrary: acc) auto

lemma Allocate_loop_fail:
  "\<not> list_all (Contains (devices plugin)) reqs \<Longrightarrow>
   Allocate_loop plugin reqs acc = Inl (InvalidAllocationRequest (resourceName plugin))"
  by (induction reqs arbitrary: acc) auto

text \<open>
  C7. An allocate call over per-container requests fails as a whole, with no response,
  when some requested id of some request is not in the inventory; otherwise the
  responses are, in request order, the bindings of \<open>NVIDIA_VISIBLE_DEVICES\<close> to the
  comma-joined ids of each request; the plugin (and so its inventory) is unchanged.
\<close>

theorem C7_Allocate_validates_and_binds:
  "((\<exists>req \<in> set reqs. \<exists>i \<in> set req. i \<notin> fst ` set (devices plugin)) \<longrightarrow>
      snd (Allocate plugin reqs) = Inl (InvalidAllocationRequest (resourceName plugin))) \<and>
   ((\<forall>req \<in> set reqs. \<forall>i \<in> set req. i \<in> fst ` set (devices plugin)) \<longrightarrow>
      snd (Allocate plugin reqs) =
        Inr (map (\<lambda>req. \<lparr>Envs = [(''NVIDIA_VISIBLE_DEVICES'', strings_Join req '','')]\<rparr>) reqs)) \<and>
   fst (Allocate plugin reqs) = plugin"
proof -
  have all: "list_all (Contains (devices plugin)) reqs \<longleftrightarrow>
      (\<forall>req \<in> set reqs. \<forall>i \<in> set req. i \<in> fst ` set (devices plugin))"
    by (auto simp: list_all_iff Contains_iff)
  show ?thesis
    unfolding Allocate_def fst_conv snd_conv
    using Allocate_loop_ok [of plugin reqs "[]"] Allocate_loop_fail [of plugin reqs "[]"] all
    by auto
qed

theorem C7_Allocate_witness:
  "snd (Allocate two_gpu_plugin [[''GPU-b'', ''GPU-a''], [''GPU-b'']]) =
     Inr [\<lparr>Envs = [(''NVIDIA_VISIBLE_DEVICES'', ''GPU-b,GPU-a'')]\<rparr>,
          \<lparr>Envs = [(''NVIDIA_VISIBLE_DEVICES'', ''GPU-b'')]\<rparr>] \<and>
   snd (Allocate two_gpu_plugin [[''GPU-a''], [''GPU-a'', ''GPU-x'']]) =
     Inl (InvalidAllocationRequest ''nvidia.com/gpu'') \<and>
   fst (Allocate two_gpu_plugin [[''GPU-a''], [''GPU-a'', ''GPU-x'']]) = two_gpu_plugin"
  using C7_Allocate_validates_and_binds [of "[[''GPU-b'', ''GPU-a''], [''GPU-b'']]" two_gpu_plugin]
    C7_Allocate_validates_and_binds [of "[[''GPU-a''], [''GPU-a'', ''GPU-x'']]" two_gpu_plugin]
  by (simp add: two_gpu_plugin_def)

text \<open>
  C10. A container request with no device ids never fails the call: the containment
  test over zero ids is true, a call made of that request alone succeeds and binds
  \<open>NVIDIA_VISIBLE_DEVICES\<close> to the empty string, and inserting such a request anywhere
  into a call changes its outcome only by that one extra response.
\<close>

theorem C10_Allocate_empty_request:
  "Contains (devices plugin) [] \<and>
   snd (Allocate plugin [[]]) = Inr [\<lparr>Envs = [(''NVIDIA_VISIBLE_DEVICES'', '''')]\<rparr>] \<and>
   snd (Allocate plugin (before @ [[]] @ after)) =
     (case snd (Allocate plugin (before @ after)) of
        Inl e \<Rightarrow> Inl e
      | Inr rs \<Rightarrow>
          Inr (take (length before) rs @ [\<lparr>Envs = [(''NVIDIA_VISIBLE_DEVICES'', '''')]\<rparr>]
                 @ drop (length before) rs))"
proof -
  let ?ok = "list_all (Contains (devices plugin))"
  have same: "?ok (before @ [[]] @ after) = ?ok (before @ after)"
    by simp
  have third: "snd (Allocate plugin (before @ [[]] @ after)) =
     (case snd (Allocate plugin (before @ after)) of
        Inl e \<Rightarrow> Inl e
      | Inr rs \<Rightarrow>
          Inr (take (length before) rs @ [\<lparr>Envs = [(''NVIDIA_VISIBLE_DEVICES'', '''')]\<rparr>]
                 @ drop (length before) rs))"
  proof (cases "?ok (before @ after)")
    case True
    with same have "?ok (before @ [[]] @ after)" by simp
    from Allocate_loop_ok [OF this, of "[]"] Allocate_loop_ok [OF True, of "[]"]
    show ?thesis by (simp add: Allocate_def)
  next
    case False
    with same have "\<not> ?ok (before @ [[]] @ after)" by simp
    from Allocate_loop_fail [OF this, of "[]"] Allocate_loop_fail [OF False, of "[]"]
    show ?thesis by (simp add: Allocate_def)
  qed
  show ?thesis
    using third by (simp add: Allocate_def)
qed

theorem C10_Allocate_empty_request_witness:
  "snd (Allocate two_gpu_plugin [[''GPU-a''], [], [''GPU-b'']]) =
     Inr [\<lparr>Envs = [(''NVIDIA_VISIBLE_DEVICES'', ''GPU-a'')]\<rparr>,
          \<lparr>Envs = [(''NVIDIA_VISIBLE_DEVICES'', '''')]\<rparr>,
          \<lparr>Envs = [(''NVIDIA_VISIBLE_DEVICES'', ''GPU-b'')]\<rparr>]"
  using C10_Allocate_empty_request [of two_gpu_plugin "[[''GPU-a'']]" "[[''GPU-b'']]"]
  by (simp add: Allocate_def two_gpu_plugin_def)

section \<open>Replica ids: composing and decomposing\<close>

lemma Index_first:
  "\<not> strings_Contains u ''::'' \<Longrightarrow> u = [] \<or> last u \<noteq> CHR '':'' \<Longrightarrow>
   strings_Index (u @ ''::'' @ rest) ''::'' = Some (length u)"
proof (induction u)
  case Nil
  then show ?case by simp
next
  case (Cons c u)
  have np: "\<not> prefix ''::'' (c # u @ ''::'' @ rest)"
  proof
    assume p: "prefix ''::'' (c # u @ ''::'' @ rest)"
    then have c: "c = CHR '':''" by simp
    show False
    proof (cases u)
      case Nil
      with Cons.prems c show False by simp
    next
      case (Cons d u')
      with p c have "d = CHR '':''" by simp
      with Cons c Cons.prems(1) show False by (simp add: strings_Contains_def)
    qed
  qed
  have "\<not> strings_Contains u ''::''"
    using Cons.prems(1) by (auto simp: strings_Contains_def split: if_splits)
  moreover have "u = [] \<or> last u \<noteq> CHR '':''"
    using Cons.prems(2) by (auto split: if_splits)
  ultimately have "strings_Index (u @ ''::'' @ rest) ''::'' = Some (length u)"
    by (rule Cons.IH)
  with np show ?case by simp
qed

lemma ParseUint_loop_append:
  "ParseUint_loop n (xs @ ys) =
     (case ParseUint_loop n xs of (v, None) \<Rightarrow> ParseUint_loop v ys | (v, Some e) \<Rightarrow> (v, Some e))"
  by (induction xs arbitrary: n) (auto simp: Let_def)

lemma of_char_digit: "d < 10 \<Longrightarrow> (of_char (digit_char d) :: nat) = 48 + d"
proof -
  assume "d < 10"
  then have "d \<in> {0, 1, 2, 3, 4, 5, 6, 7, 8, 9}" by auto
  then show ?thesis by (auto simp: digit_char_def)
qed

lemma ParseUint_loop_decimal:
  "m \<le> maxUint64 \<Longrightarrow> ParseUint_loop 0 (decimal m) = (m, None)"
proof (induction m rule: less_induct)
  case (less m)
  show ?case
  proof (cases "m < 10")
    case True
    then show ?thesis using less.prems
      by (subst decimal.simps) (simp add: of_char_digit maxUint64_def)
  next
    case False
    have 1: "ParseUint_loop 0 (decimal (m div 10)) = (m div 10, None)"
      using less.IH [of "m div 10"] less.prems False by simp
    have 2: "m div 10 < maxUint64 div 10 + 1"
      using less.prems by (simp add: div_le_mono less_Suc_eq_le)
    show ?thesis using False 1 2 less.prems
      by (subst decimal.simps) (simp add: ParseUint_loop_append of_char_digit)
  qed
qed

lemma decimal_nonempty: "decimal m \<noteq> []"
  by (subst decimal.simps) simp

lemma hd_decimal_digit: "hd (decimal m) \<noteq> CHR ''-'' \<and> hd (decimal m) \<noteq> CHR ''+''"
proof (induction m rule: less_induct)
  case (less m)
  show ?case
  proof (cases "m < 10")
    case True
    have "(of_char (hd (decimal m)) :: nat) = 48 + m"
      using True by (subst decimal.simps) (simp add: of_char_digit)
    then show ?thesis using True by auto
  next
    case False
    then show ?thesis
      using less.IH [of "m div 10"] decimal_nonempty [of "m div 10"]
      by (subst (1 2) decimal.simps) (simp add: hd_append)
  qed
qed

lemma ParseInt_fmt_d: "0 \<le> i \<Longrightarrow> i < 2 ^ 63 \<Longrightarrow> ParseInt (fmt_d i) = (i, None)"
proof -
  assume a: "0 \<le> i" "i < 2 ^ 63"
  then have "nat i < 2 ^ 63" by (simp add: nat_less_iff)
  then have b: "nat i \<le> maxUint64" by (simp add: maxUint64_def)
  show ?thesis
    using a ParseUint_loop_decimal [OF b] hd_decimal_digit [of "nat i"] decimal_nonempty [of "nat i"]
      \<open>nat i < 2 ^ 63\<close>
    by (simp add: ParseInt_def fmt_d_def ParseUint_def)
qed

lemma decimal_small: "n < 10 \<Longrightarrow> decimal n = [digit_char n]"
  by (subst decimal.simps) simp

lemma decimal_big: "10 \<le> n \<Longrightarrow> decimal n = decimal (n div 10) @ [digit_char (n mod 10)]"
  by (subst decimal.simps) simp

lemmas eval_ids = AnnotatedID_Split_def NewAnnotatedID_def strings_SplitN2_def fmt_d_def
  decimal_small decimal_big digit_char_def ParseInt_def ParseUint_def maxUint64_def
  strings_Contains_def GetID_def HasAnnotations_def

lemma Split_without_separator:
  "\<not> strings_Contains r ''::'' \<Longrightarrow> AnnotatedID_Split r = (r, 0)"
  by (simp add: AnnotatedID_Split_def strings_SplitN2_def strings_Contains_def)

text \<open>
  C9 (as amended). For every id that neither contains the separator \<open>::\<close> nor ends in a
  colon, and every index \<open>0 \<le> idx < 2^63\<close> (the non-negative values of a Go \<^verbatim>\<open>int\<close>),
  decomposing the composed id gives the pair back:
  \<open>Split (NewAnnotatedID id idx) = (id, idx)\<close>; and decomposing an id without the
  separator gives the id itself and the index 0.
\<close>

theorem C9_Split_NewAnnotatedID_roundtrip:
  "(\<not> strings_Contains u ''::'' \<and> (u = [] \<or> last u \<noteq> CHR '':'') \<and> 0 \<le> idx \<and> idx < 2 ^ 63
      \<longrightarrow> AnnotatedID_Split (NewAnnotatedID u idx) = (u, idx)) \<and>
   (\<not> strings_Contains r ''::'' \<longrightarrow> AnnotatedID_Split r = (r, 0))"
proof (intro conjI impI)
  assume a: "\<not> strings_Contains u ''::'' \<and> (u = [] \<or> last u \<noteq> CHR '':'') \<and> 0 \<le> idx \<and> idx < 2 ^ 63"
  then have "strings_Index (u @ ''::'' @ fmt_d idx) ''::'' = Some (length u)"
    by (intro Index_first) simp_all
  moreover have "ParseInt (fmt_d idx) = (idx, None)"
    using a by (intro ParseInt_fmt_d) simp_all
  ultimately show "AnnotatedID_Split (NewAnnotatedID u idx) = (u, idx)"
    by (simp add: AnnotatedID_Split_def NewAnnotatedID_def strings_SplitN2_def)
next
  assume "\<not> strings_Contains r ''::''"
  then show "AnnotatedID_Split r = (r, 0)"
    by (rule Split_without_separator)
qed

theorem C9_roundtrip_witness:
  "AnnotatedID_Split (NewAnnotatedID ''GPU-a'' 17) = (''GPU-a'', 17) \<and>
   AnnotatedID_Split ''GPU-a'' = (''GPU-a'', 0)"
  using C9_Split_NewAnnotatedID_roundtrip [of "''GPU-a''" 17 "''GPU-a''"]
  by (simp add: strings_Contains_def)

text \<open>
  The claim as stated fails for an id that ends in a colon: it does not contain the
  separator, yet the first \<open>::\<close> of the composed id \<open>a:::5\<close> starts inside the id, so
  \<^verbatim>\<open>Split\<close> returns the id \<open>a\<close> and, \<open>:5\<close> not being a number, the index 0.
\<close>

theorem C9_roundtrip_counterexample:
  "\<not> strings_Contains ''a:'' ''::'' \<and>
   NewAnnotatedID ''a:'' 5 = ''a:::5'' \<and>
   AnnotatedID_Split (NewAnnotatedID ''a:'' 5) = (''a'', 0) \<and>
   AnnotatedID_Split (NewAnnotatedID ''a:'' 5) \<noteq> (''a:'', 5)"
  by (simp add: eval_ids)

section \<open>Inventory views and the candidates of an allocation\<close>

lemma keys_Subset_loop:
  "fst ` set (Subset_loop ds ids res) = fst ` set res \<union> {i \<in> set ids. i \<in> fst ` set ds}"
proof (induction ids arbitrary: res)
  case Nil
  then show ?case by simp
next
  case (Cons i ids)
  show ?case
  proof (cases "map_of ds i")
    case None
    then have "i \<notin> fst ` set ds" by (simp add: map_of_eq_None_iff)
    with None Cons.IH [of res] show ?thesis by auto
  next
    case (Some d)
    then have "i \<in> fst ` set ds" by (metis map_of_eq_None_iff option.distinct(1))
    with Some Cons.IH [of "AList.update i d res"] show ?thesis by (auto simp: dom_update)
  qed
qed

lemma distinct_Subset_loop:
  "distinct (map fst res) \<Longrightarrow> distinct (map fst (Subset_loop ds ids res))"
  by (induction ids arbitrary: res) (auto simp: distinct_update split: option.splits)

lemma keys_Difference_loop:
  "fst ` set (Difference_loop ds ods res) =
     fst ` set res \<union> {i \<in> fst ` set ds. i \<notin> fst ` set ods}"
proof (induction ds ods res rule: Difference_loop.induct)
  case (1 ods res)
  then show ?case by simp
next
  case (2 i d ds ods res)
  show ?case
  proof (cases "map_of ods i")
    case None
    then have "i \<notin> fst ` set ods" by (simp add: map_of_eq_None_iff)
    with None 2 show ?thesis by (auto simp: dom_update)
  next
    case (Some d')
    then have "i \<in> fst ` set ods" by (metis map_of_eq_None_iff option.distinct(1))
    with Some 2 show ?thesis by auto
  qed
qed

lemma distinct_Difference_loop:
  "distinct (map fst res) \<Longrightarrow> distinct (map fst (Difference_loop ds ods res))"
  by (induction ds ods res rule: Difference_loop.induct) (auto simp: distinct_update)

lemma keys_candidates:
  "fst ` set (Difference (Subset (devices plugin) avail) (Subset (devices plugin) required)) =
     satisfiable plugin avail required"
  by (auto simp: Difference_def Subset_def keys_Difference_loop keys_Subset_loop satisfiable_def)

lemma length_candidates:
  assumes "map_order_spec (map_order rt)"
  shows "length (alloc_candidates rt plugin avail required) = card (satisfiable plugin avail required)"
proof -
  let ?m = "Difference (Subset (devices plugin) avail) (Subset (devices plugin) required)"
  have d: "distinct (map fst ?m)"
    by (simp add: Difference_def distinct_Difference_loop)
  have "length (alloc_candidates rt plugin avail required) = length ?m"
    using assms mset_eq_length [of "map_order rt (map (\<lambda>(k, d). ID d) ?m)" "map (\<lambda>(k, d). ID d) ?m"]
    by (simp add: alloc_candidates_def GetIDs_def map_order_spec_def)
  also have "\<dots> = card (fst ` set ?m)"
    using distinct_card [OF d] by simp
  finally show ?thesis by (simp add: keys_candidates)
qed

section \<open>The replica table and the picking loop\<close>

lemma dom_count_available: "dom (count_available R cs) = dom R \<union> GetID ` set cs"
  by (induction cs arbitrary: R) (auto simp: Let_def)

lemma dom_count_total: "dom (count_total R ds) = dom R"
  by (induction ds arbitrary: R) (auto simp: Let_def split: option.splits)

lemma replica_table_defined:
  "c \<in> set cands \<Longrightarrow> replica_table plugin cands (GetID c) \<noteq> None"
proof -
  assume "c \<in> set cands"
  then have "GetID c \<in> dom (replica_table plugin cands)"
    by (simp add: replica_table_def dom_count_total dom_count_available)
  then show ?thesis by auto
qed

lemma filter_other_base: "b \<notin> GetID ` set cs \<Longrightarrow> filter (\<lambda>c. GetID c = b) cs = []"
  by (auto simp: filter_empty_conv)

lemma count_available_at:
  "count_available R cs b =
     (if b \<in> GetID ` set cs
      then Some ((case R b of None \<Rightarrow> \<lparr>total = 0, available = 0\<rparr> | Some r \<Rightarrow> r)
             \<lparr>available := available (case R b of None \<Rightarrow> \<lparr>total = 0, available = 0\<rparr> | Some r \<Rightarrow> r)
                 + int (length (filter (\<lambda>c. GetID c = b) cs))\<rparr>)
      else R b)"
proof (induction cs arbitrary: R)
  case Nil
  then show ?case by simp
next
  case (Cons c cs)
  show ?case
    by (cases "GetID c = b"; cases "b \<in> GetID ` set cs"; cases "R b")
       (auto simp: Cons.IH Let_def filter_other_base)
qed

lemma count_total_at:
  "count_total R ds b =
     map_option (\<lambda>r. r\<lparr>total := total r + int (length (filter (\<lambda>d. GetID d = b) ds))\<rparr>) (R b)"
proof (induction ds arbitrary: R)
  case Nil
  then show ?case by (cases "R b") auto
next
  case (Cons d ds)
  show ?case
    by (cases "GetID d = b"; cases "R b"; cases "R (GetID d)")
       (auto simp: Cons.IH Let_def)
qed

lemma replica_table_counts:
  "c \<in> set cands \<Longrightarrow>
   replica_table plugin cands (GetID c) =
     Some \<lparr>total = int (length (filter (\<lambda>k. GetID k = GetID c) (map fst (devices plugin)))),
           available = int (length (filter (\<lambda>x. GetID x = GetID c) cands))\<rparr>"
  by (simp add: replica_table_def count_total_at count_available_at)

lemma skew_replica_table:
  "c \<in> set cands \<Longrightarrow>
   skew (replica_table plugin cands) c =
     int (length (filter (\<lambda>k. GetID k = GetID c) (map fst (devices plugin))))
       - int (length (filter (\<lambda>x. GetID x = GetID c) cands))"
  by (simp add: skew_def replica_table_counts)

lemma less_skew_key: "less_skew R = (\<lambda>a b. skew R a < skew R b)"
  by (simp add: fun_eq_iff less_skew_def)

lemma sort_Slice_first:
  assumes "sort_Slice_spec srt" and "srt (less_skew R) cs = c # rest"
  shows "mset cs = add_mset c (mset rest)" and "\<forall>x \<in> set cs. skew R c \<le> skew R x"
proof -
  from assms(1) have m: "mset (srt (less_skew R) cs) = mset cs"
    and s: "sorted_wrt (\<lambda>a b. \<not> skew R b < skew R a) (srt (less_skew R) cs)"
    unfolding sort_Slice_spec_def less_skew_key by blast+
  from m assms(2) show ms: "mset cs = add_mset c (mset rest)" by simp
  from s assms(2) have "\<forall>x \<in> set rest. skew R c \<le> skew R x" by auto
  moreover have "set cs = insert c (set rest)"
    using ms by (metis set_mset_mset set_mset_add_mset_insert)
  ultimately show "\<forall>x \<in> set cs. skew R c \<le> skew R x" by simp
qed

lemma decrement_defined: "decrement R c k \<noteq> None \<longleftrightarrow> R k \<noteq> None"
  by (auto simp: decrement_def split: option.splits)

lemma pick_loop_greedy:
  assumes "sort_Slice_spec (sort_Slice rt)"
  shows "n \<le> length cs \<Longrightarrow> \<forall>c \<in> set cs. R (GetID c) \<noteq> None \<Longrightarrow>
    \<exists>picks. pick_loop rt n R cs acc = Inr (acc @ picks) \<and> length picks = n \<and>
      greedy_picks R (mset cs) picks"
proof (induction n arbitrary: R cs acc)
  case 0
  then show ?case by (auto intro: greedy_done)
next
  case (Suc n)
  from assms have len: "length (sort_Slice rt (less_skew R) cs) = length cs"
    unfolding sort_Slice_spec_def less_skew_key by (metis mset_eq_length)
  with Suc.prems(1) obtain c rest where cr: "sort_Slice rt (less_skew R) cs = c # rest"
    by (cases "sort_Slice rt (less_skew R) cs") auto
  note first = sort_Slice_first [OF assms cr]
  have cin: "c \<in> set cs" using first(1) by (metis set_mset_mset union_single_eq_member)
  with Suc.prems(2) obtain r where r: "R (GetID c) = Some r" by auto
  have R': "R(GetID c \<mapsto> r\<lparr>available := available r - 1\<rparr>) = decrement R c"
    using r by (simp add: decrement_def)
  have sub: "set rest \<subseteq> set cs"
    using first(1) by (metis set_mset_mset set_mset_add_mset_insert subset_insertI)
  have "n \<le> length rest" using len cr Suc.prems(1) by simp
  moreover have "\<forall>x \<in> set rest. decrement R c (GetID x) \<noteq> None"
  proof
    fix x assume "x \<in> set rest"
    with sub Suc.prems(2) have "R (GetID x) \<noteq> None" by blast
    then show "decrement R c (GetID x) \<noteq> None"
      using decrement_defined [of R c "GetID x"] by blast
  qed
  ultimately obtain picks where p:
    "pick_loop rt n (decrement R c) rest (acc @ [c]) = Inr ((acc @ [c]) @ picks)"
    "length picks = n" "greedy_picks (decrement R c) (mset rest) picks"
    using Suc.IH [of rest "decrement R c" "acc @ [c]"] by blast
  have "greedy_picks R (mset cs) (c # picks)"
  proof (rule greedy_pick)
    show "c \<in># mset cs" using cin by simp
    show "R (GetID c) \<noteq> None" using r by simp
    show "\<forall>x \<in># mset cs. skew R c \<le> skew R x" using first(2) by simp
    show "greedy_picks (decrement R c) (mset cs - {#c#}) picks"
      using p(3) first(1) by simp
  qed
  with p(1,2) cr r R' show ?case by simp
qed

lemma mset_insert_sorted: "mset (insert_sorted lt x ys) = add_mset x (mset ys)"
  by (induction ys) auto

lemma set_insert_sorted: "set (insert_sorted lt x ys) = insert x (set ys)"
  by (induction ys) auto

lemma sorted_insert_sorted:
  fixes key :: "'a \<Rightarrow> int"
  shows "sorted_wrt (\<lambda>a b. \<not> key b < key a) ys \<Longrightarrow>
    sorted_wrt (\<lambda>a b. \<not> key b < key a) (insert_sorted (\<lambda>a b. key a < key b) x ys)"
  by (induction ys) (auto simp: set_insert_sorted)

lemma foldl_insert_sorted:
  fixes key :: "'a \<Rightarrow> int"
  shows "mset (foldl (\<lambda>s x. insert_sorted lt x s) acc xs) = mset acc + mset xs"
    and "sorted_wrt (\<lambda>a b. \<not> key b < key a) acc \<Longrightarrow>
      sorted_wrt (\<lambda>a b. \<not> key b < key a)
        (foldl (\<lambda>s x. insert_sorted (\<lambda>a b. key a < key b) x s) acc xs)"
  by (induction xs arbitrary: acc) (auto simp: mset_insert_sorted sorted_insert_sorted)

lemma insertionSort_spec: "sort_Slice_spec insertionSort"
  unfolding sort_Slice_spec_def insertionSort_def
proof (intro allI conjI)
  fix key :: "string \<Rightarrow> int" and xs
  show "mset (foldl (\<lambda>sorted x. insert_sorted (\<lambda>a b. key a < key b) x sorted) [] xs) = mset xs"
    by (simp add: foldl_insert_sorted(1))
  show "sorted_wrt (\<lambda>a b. \<not> key b < key a)
          (foldl (\<lambda>sorted x. insert_sorted (\<lambda>a b. key a < key b) x sorted) [] xs)"
    by (rule foldl_insert_sorted(2)) simp
qed

lemma stable_runtime_ok: "runtime_ok stable_runtime"
  by (simp add: runtime_ok_def stable_runtime_def map_order_spec_def insertionSort_spec)

lemma distributedAlloc_cases:
  assumes "runtime_ok rt"
  shows "(int (card (satisfiable plugin avail required)) < sz - int (length required) \<and>
          distributedAlloc rt plugin avail required sz = Inl NotEnoughDevices) \<or>
         (sz - int (length required) \<le> int (card (satisfiable plugin avail required)) \<and>
          (\<exists>picks. distributedAlloc rt plugin avail required sz = Inr (required @ picks) \<and>
             length picks = nat (sz - int (length required)) \<and>
             greedy_picks (replica_table plugin (alloc_candidates rt plugin avail required))
               (mset (alloc_candidates rt plugin avail required)) picks))"
proof -
  let ?cs = "alloc_candidates rt plugin avail required"
  let ?needed = "sz - int (length required)"
  from assms have mo: "map_order_spec (map_order rt)" and so: "sort_Slice_spec (sort_Slice rt)"
    by (simp_all add: runtime_ok_def)
  note len = length_candidates [OF mo, of plugin avail required]
  show ?thesis
  proof (cases "int (length ?cs) < ?needed")
    case True
    then show ?thesis using len by (simp add: distributedAlloc_def Let_def)
  next
    case False
    then have "nat ?needed \<le> length ?cs" by simp
    moreover have "\<forall>c \<in> set ?cs. replica_table plugin ?cs (GetID c) \<noteq> None"
      by (simp add: replica_table_defined)
    ultimately obtain picks where
      "pick_loop rt (nat ?needed) (replica_table plugin ?cs) ?cs [] = Inr ([] @ picks)"
      "length picks = nat ?needed" "greedy_picks (replica_table plugin ?cs) (mset ?cs) picks"
      using pick_loop_greedy [OF so, of "nat ?needed" ?cs "replica_table plugin ?cs" "[]"] by blast
    with False len show ?thesis by (auto simp: distributedAlloc_def Let_def)
  qed
qed

section \<open>Greedy picks are fair\<close>

inductive_cases greedy_picks_ConsE: "greedy_picks R cs (c # ps)"

lemma skew_same_base: "GetID a = GetID b \<Longrightarrow> skew R a = skew R b"
  by (simp add: skew_def)

lemma skew_decrement:
  "skew (decrement R c) x =
     (if GetID x = GetID c \<and> R (GetID c) \<noteq> None then skew R x + 1 else skew R x)"
  by (auto simp: skew_def decrement_def split: option.splits)

lemma table_after_Cons: "table_after R (p # ps) = table_after (decrement R p) ps"
  by (simp add: table_after_def)

lemma skew_table_after_mono: "skew R x \<le> skew (table_after R ps) x"
proof (induction ps arbitrary: R)
  case Nil
  then show ?case by (simp add: table_after_def)
next
  case (Cons p ps)
  have "skew R x \<le> skew (decrement R p) x" by (simp add: skew_decrement)
  also have "\<dots> \<le> skew (table_after (decrement R p) ps) x" by (rule Cons.IH)
  finally show ?case by (simp add: table_after_Cons)
qed

lemma skew_table_after_other:
  "\<forall>p \<in> set ps. GetID p \<noteq> GetID x \<Longrightarrow> skew (table_after R ps) x = skew R x"
proof (induction ps arbitrary: R)
  case Nil
  then show ?case by (simp add: table_after_def)
next
  case (Cons p ps)
  then have "skew (table_after (decrement R p) ps) x = skew (decrement R p) x" by simp
  also have "\<dots> = skew R x" using Cons.prems by (auto simp: skew_decrement)
  finally show ?case by (simp add: table_after_Cons)
qed

lemma greedy_picks_drop:
  "greedy_picks R cs (ps @ qs) \<Longrightarrow> greedy_picks (table_after R ps) (cs - mset ps) qs"
proof (induction ps arbitrary: R cs)
  case Nil
  then show ?case by (simp add: table_after_def)
next
  case (Cons p ps)
  from Cons.prems have "greedy_picks (decrement R p) (cs - {#p#}) (ps @ qs)"
    by (auto elim: greedy_picks_ConsE)
  from Cons.IH [OF this] show ?case by (simp add: table_after_Cons)
qed

lemma greedy_reselect:
  assumes g: "greedy_picks R cs (p # mid @ q # rest)"
    and same: "GetID q = GetID p"
    and c: "c \<in># cs" "GetID c \<noteq> GetID p" "skew R c \<le> skew R p"
  shows "\<exists>x \<in> set mid. GetID x = GetID c"
proof (rule ccontr)
  assume "\<not> (\<exists>x \<in> set mid. GetID x = GetID c)"
  then have none: "\<forall>x \<in> set (p # mid). GetID x \<noteq> GetID c"
    using c(2) by auto
  from g have pdef: "R (GetID p) \<noteq> None" by (auto elim: greedy_picks_ConsE)
  let ?R' = "table_after R (p # mid)"
  from g have "greedy_picks R cs ((p # mid) @ q # rest)" by simp
  then have "greedy_picks ?R' (cs - mset (p # mid)) (q # rest)" by (rule greedy_picks_drop)
  then have qmin: "\<forall>x \<in># cs - mset (p # mid). skew ?R' q \<le> skew ?R' x"
    by (auto elim: greedy_picks_ConsE)
  have "c \<notin> set (p # mid)" using none by auto
  then have "count (mset (p # mid)) c = 0" by (simp only: count_mset_0_iff not_False_eq_True)
  moreover have "count cs c > 0" using c(1) by simp
  ultimately have "c \<in># cs - mset (p # mid)"
    by (metis count_diff count_greater_zero_iff diff_zero)
  with qmin have "skew ?R' q \<le> skew ?R' c" by blast
  also have "skew ?R' c = skew R c"
    using none by (intro skew_table_after_other) auto
  finally have 1: "skew ?R' q \<le> skew R p" using c(3) by simp
  have "skew R p + 1 = skew (decrement R p) q"
    using same pdef by (simp add: skew_decrement skew_same_base [of q p])
  also have "\<dots> \<le> skew (table_after (decrement R p) mid) q" by (rule skew_table_after_mono)
  finally have "skew R p + 1 \<le> skew ?R' q" by (simp add: table_after_Cons)
  with 1 show False by simp
qed

lemma greedy_no_early_reselection:
  assumes g: "greedy_picks R cs picks"
  shows "no_early_reselection R cs picks"
  unfolding no_early_reselection_def
proof (intro allI impI ballI)
  fix i j c
  assume ij: "i < j \<and> j < length picks \<and> GetID (picks ! j) = GetID (picks ! i)"
    and cin: "c \<in># cs - mset (take i picks)"
    and cc: "GetID c \<noteq> GetID (picks ! i) \<and>
      skew (table_after R (take i picks)) c \<le> skew (table_after R (take i picks)) (picks ! i)"
  let ?tl = "drop (Suc i) picks"
  let ?j' = "j - Suc i"
  from ij have i: "i < length picks" and j': "?j' < length ?tl" by auto
  have tlj: "?tl ! ?j' = picks ! j" using ij by simp
  have split1: "picks = take i picks @ picks ! i # ?tl"
    using i by (rule id_take_nth_drop)
  have split2: "?tl = take ?j' ?tl @ picks ! j # drop (Suc ?j') ?tl"
    using id_take_nth_drop [OF j'] tlj by simp
  from g split1 have "greedy_picks R cs (take i picks @ picks ! i # ?tl)" by simp
  then have "greedy_picks (table_after R (take i picks)) (cs - mset (take i picks))
      (picks ! i # ?tl)"
    by (rule greedy_picks_drop)
  with split2 have "greedy_picks (table_after R (take i picks)) (cs - mset (take i picks))
      (picks ! i # take ?j' ?tl @ picks ! j # drop (Suc ?j') ?tl)"
    by simp
  from greedy_reselect [OF this _ cin] ij cc
  obtain x where x: "x \<in> set (take ?j' ?tl)" "GetID x = GetID c" by blast
  then obtain m where m: "m < ?j'" "x = ?tl ! m"
    using j' by (auto simp: in_set_conv_nth)
  then have "x = picks ! (Suc i + m)" using ij by simp
  with m x(2) have "i < Suc i + m \<and> Suc i + m < j \<and> GetID (picks ! (Suc i + m)) = GetID c"
    by auto
  then show "\<exists>k. i < k \<and> k < j \<and> GetID (picks ! k) = GetID c" by blast
qed

section \<open>Evaluating the allocation on concrete inventories\<close>

lemma GetID_all8 [simp]:
  "GetID ''A::0'' = ''A''" "GetID ''A::1'' = ''A''" "GetID ''A::2'' = ''A''" "GetID ''A::3'' = ''A''"
  "GetID ''B::0'' = ''B''" "GetID ''B::1'' = ''B''" "GetID ''B::2'' = ''B''" "GetID ''B::3'' = ''B''"
  "GetID ''zz'' = ''zz''" "GetID ''GPU-a'' = ''GPU-a''" "GetID ''GPU-b'' = ''GPU-b''"
  by (simp_all add: eval_ids)

lemma pick_loop_numeral:
  "pick_loop rt (numeral k) replicas candidates picked =
     (case sort_Slice rt (less_skew replicas) candidates of
        [] \<Rightarrow> Inl PanicIndexOutOfRange
      | c # rest \<Rightarrow>
          (case replicas (GetID c) of
             None \<Rightarrow> Inl PanicNilDereference
           | Some r \<Rightarrow>
               pick_loop rt (pred_numeral k) (replicas(GetID c \<mapsto> r\<lparr>available := available r - 1\<rparr>)) rest
                 (picked @ [c])))"
  by (simp add: numeral_eq_Suc)

lemmas eval_alloc = distributedAlloc_def alloc_candidates_def replica_table_def stable_runtime_def shared_plugin_def shared_gpu_def
     GetIDs_def Difference_def Subset_def insertionSort_def less_skew_def skew_def Let_def pick_loop_numeral

lemma candidates_all8: "alloc_candidates stable_runtime shared_plugin all8 [] = all8"
  by (simp add: eval_alloc all8_def)

lemma alloc_all8: "distributedAlloc stable_runtime shared_plugin all8 [] 3 = Inr [''A::0'', ''B::0'', ''B::1'']"
  by (simp add: eval_alloc all8_def)

section \<open>The choice of the allocation policy\<close>

lemma strings_Contains_sublist: "strings_Contains s sep \<longleftrightarrow> sublist sep s"
  unfolding strings_Contains_def
proof (induction s)
  case Nil
  then show ?case by simp
next
  case (Cons c s)
  then show ?case by (auto simp: sublist_Cons_right)
qed

lemma HasAnnotations_sublist: "HasAnnotations r \<longleftrightarrow> sublist ''::'' r"
  using strings_Contains_sublist [of r "''::''"]
  by (auto simp: HasAnnotations_def strings_SplitN2_def strings_Contains_def split: option.splits)

lemma AnyHasAnnotations_iff: "AnyHasAnnotations rs \<longleftrightarrow> (\<exists>r \<in> set rs. sublist ''::'' r)"
  by (induction rs) (auto simp: HasAnnotations_sublist)

lemma no_dxg_path_iff: "no_dxg_path ps \<longleftrightarrow> ''/dev/dxg'' \<notin> set ps"
  by (induction ps) auto

lemma Device_AlignedAllocationSupported_iff:
  "Device_AlignedAllocationSupported d \<longleftrightarrow>
     \<not> sublist '':'' (Index d) \<and> ''/dev/dxg'' \<notin> set (Paths d)"
  by (simp add: Device_AlignedAllocationSupported_def IsMigDevice_def strings_Contains_sublist
      no_dxg_path_iff)

lemma AlignedAllocationSupported_iff:
  "AlignedAllocationSupported ds \<longleftrightarrow> (\<forall>d \<in> snd ` set ds. Device_AlignedAllocationSupported d)"
  by (induction ds rule: AlignedAllocationSupported.induct) auto

text \<open>
  C6. A preferred-allocation request goes to the topology-aligned policy exactly when
  every device of the inventory supports aligned allocation and no available id carries
  a replica annotation (contains \<open>::\<close>); otherwise it goes to the replica-distributed
  policy. A device supports aligned allocation exactly when its topology index contains
  no colon and none of its device-node paths is \<open>/dev/dxg\<close>.
\<close>

theorem C6_policy_choice:
  "getPreferredAllocation alignedAlloc rt plugin avail required sz =
     (if (\<forall>d \<in> snd ` set (devices plugin).
            \<not> sublist '':'' (Index d) \<and> ''/dev/dxg'' \<notin> set (Paths d)) \<and>
         (\<forall>i \<in> set avail. \<not> sublist ''::'' i)
      then alignedAlloc avail required sz
      else distributedAlloc rt plugin avail required sz) \<and>
   (Device_AlignedAllocationSupported d \<longleftrightarrow>
      \<not> sublist '':'' (Index d) \<and> ''/dev/dxg'' \<notin> set (Paths d))"
  by (simp add: getPreferredAllocation_def AlignedAllocationSupported_iff AnyHasAnnotations_iff
      Device_AlignedAllocationSupported_iff)

theorem C6_policy_choice_witness:
  "getPreferredAllocation first_n stable_runtime two_gpu_plugin [''GPU-b'', ''GPU-a''] [] 1
     = first_n [''GPU-b'', ''GPU-a''] [] 1 \<and>
   getPreferredAllocation first_n stable_runtime shared_plugin [''B::1'', ''A::0''] [] 1
     = distributedAlloc stable_runtime shared_plugin [''B::1'', ''A::0''] [] 1 \<and>
   Device_AlignedAllocationSupported (whole_gpu ''GPU-a'' ''0'') \<and>
   \<not> Device_AlignedAllocationSupported wsl_gpu \<and>
   \<not> Device_AlignedAllocationSupported mig_slice"
  using C6_policy_choice [of first_n stable_runtime two_gpu_plugin "[''GPU-b'', ''GPU-a'']" "[]" 1
      "whole_gpu ''GPU-a'' ''0''"]
    C6_policy_choice [of first_n stable_runtime shared_plugin "[''B::1'', ''A::0'']" "[]" 1 wsl_gpu]
    C6_policy_choice [of first_n stable_runtime shared_plugin "[''B::1'', ''A::0'']" "[]" 1 mig_slice]
  by (simp add: two_gpu_plugin_def shared_plugin_def whole_gpu_def shared_gpu_def wsl_gpu_def
      mig_slice_def strings_Contains_sublist [symmetric] strings_Contains_def)

section \<open>The replica-distributed allocation: how many ids, and which\<close>

text \<open>
  C2 (as amended). Under every admissible enumeration and sort: a successful
  replica-distributed allocation returns the required ids first and
  \<open>max count |required|\<close> ids in all, which is \<open>count\<close> ids whenever
  \<open>count \<ge> |required|\<close>; when \<open>count - |required|\<close> exceeds the number of satisfiable
  candidates the call fails and returns no id; otherwise it succeeds.
\<close>

theorem C2_distributedAlloc_count:
  assumes "runtime_ok rt"
  shows "(\<forall>res. distributedAlloc rt plugin avail required sz = Inr res \<longrightarrow>
            int (length res) = max sz (int (length required)) \<and>
            take (length required) res = required) \<and>
         (int (card {i \<in> set avail. i \<in> fst ` set (devices plugin) \<and> i \<notin> set required})
              < sz - int (length required) \<longrightarrow>
            distributedAlloc rt plugin avail required sz = Inl NotEnoughDevices) \<and>
         (sz - int (length required)
              \<le> int (card {i \<in> set avail. i \<in> fst ` set (devices plugin) \<and> i \<notin> set required}) \<longrightarrow>
            (\<exists>res. distributedAlloc rt plugin avail required sz = Inr res))"
  using distributedAlloc_cases [OF assms, of plugin avail required sz]
  unfolding satisfiable_def by auto

theorem C2_distributedAlloc_count_witness:
  "distributedAlloc stable_runtime shared_plugin [''A::0'', ''A::1'', ''B::3'', ''zz'']
       [''B::0'', ''B::1''] 4 = Inr [''B::0'', ''B::1'', ''A::0'', ''A::1''] \<and>
   int (length [''B::0'', ''B::1'', ''A::0'', ''A::1'']) = max 4 (int (length [''B::0'', ''B::1''])) \<and>
   take (length [''B::0'', ''B::1'']) [''B::0'', ''B::1'', ''A::0'', ''A::1''] = [''B::0'', ''B::1''] \<and>
   distributedAlloc stable_runtime shared_plugin [''A::0'', ''A::1'', ''B::3'', ''zz'']
       [''B::0'', ''B::1''] 6 = Inl NotEnoughDevices"
proof -
  let ?avail = "[''A::0'', ''A::1'', ''B::3'', ''zz'']"
  let ?req = "[''B::0'', ''B::1'']"
  have e: "distributedAlloc stable_runtime shared_plugin ?avail ?req 4
      = Inr [''B::0'', ''B::1'', ''A::0'', ''A::1'']"
    by (simp add: eval_alloc)
  have s: "{i \<in> set ?avail. i \<in> fst ` set (devices shared_plugin) \<and> i \<notin> set ?req}
      = {''A::0'', ''A::1'', ''B::3''}"
    by (auto simp: shared_plugin_def)
  have c: "int (card {i \<in> set ?avail. i \<in> fst ` set (devices shared_plugin) \<and> i \<notin> set ?req})
      < 6 - int (length ?req)"
    unfolding s by simp
  from C2_distributedAlloc_count [OF stable_runtime_ok, of shared_plugin ?avail ?req 4] e
  have "int (length [''B::0'', ''B::1'', ''A::0'', ''A::1'']) = max 4 (int (length ?req)) \<and>
      take (length ?req) [''B::0'', ''B::1'', ''A::0'', ''A::1''] = ?req"
    by blast
  moreover from C2_distributedAlloc_count [OF stable_runtime_ok, of shared_plugin ?avail ?req 6] c
  have "distributedAlloc stable_runtime shared_plugin ?avail ?req 6 = Inl NotEnoughDevices"
    by blast
  ultimately show ?thesis using e by blast
qed

text \<open>
  The claim as stated fails when fewer ids are requested than are required: the loop does
  not run, and the two required ids are returned for a count of one.
\<close>

theorem C2_distributedAlloc_count_counterexample:
  "distributedAlloc stable_runtime two_gpu_plugin [''GPU-a'', ''GPU-b''] [''GPU-a'', ''GPU-b''] 1
     = Inr [''GPU-a'', ''GPU-b''] \<and>
   length [''GPU-a'', ''GPU-b''] \<noteq> 1"
  by (simp add: eval_alloc two_gpu_plugin_def)

text \<open>
  C3 (as amended). Under every admissible enumeration and sort, a successful
  replica-distributed allocation returns the required ids followed by
  \<open>count - |required|\<close> picks made greedily from the candidates, starting from the skew
  of each base id that is the number of inventory keys of that base id minus the number
  of candidates of that base id: each pick is a remaining
  candidate whose base id has the smallest \<open>total - available\<close> among the remaining
  candidates, after which the available counter of its base id is decremented; and no
  base id is picked again before every other base id that still had a candidate, with a
  skew no larger, has been picked in between. Which of several candidates of smallest
  skew is picked is not fixed by the order of the input.
\<close>

theorem C3_distributedAlloc_greedy:
  assumes "runtime_ok rt" and "distributedAlloc rt plugin avail required sz = Inr res"
  shows "(\<forall>c \<in> set (alloc_candidates rt plugin avail required).
            skew (replica_table plugin (alloc_candidates rt plugin avail required)) c =
              int (length (filter (\<lambda>k. GetID k = GetID c) (map fst (devices plugin))))
                - int (length (filter (\<lambda>x. GetID x = GetID c)
                    (alloc_candidates rt plugin avail required)))) \<and>
         (\<exists>picks. res = required @ picks \<and>
            length picks = nat (sz - int (length required)) \<and>
            greedy_picks (replica_table plugin (alloc_candidates rt plugin avail required))
              (mset (alloc_candidates rt plugin avail required)) picks \<and>
            no_early_reselection (replica_table plugin (alloc_candidates rt plugin avail required))
              (mset (alloc_candidates rt plugin avail required)) picks)"
proof
  show "\<forall>c \<in> set (alloc_candidates rt plugin avail required).
      skew (replica_table plugin (alloc_candidates rt plugin avail required)) c =
        int (length (filter (\<lambda>k. GetID k = GetID c) (map fst (devices plugin))))
          - int (length (filter (\<lambda>x. GetID x = GetID c)
              (alloc_candidates rt plugin avail required)))"
    by (simp add: skew_replica_table)
  show "\<exists>picks. res = required @ picks \<and>
      length picks = nat (sz - int (length required)) \<and>
      greedy_picks (replica_table plugin (alloc_candidates rt plugin avail required))
        (mset (alloc_candidates rt plugin avail required)) picks \<and>
      no_early_reselection (replica_table plugin (alloc_candidates rt plugin avail required))
        (mset (alloc_candidates rt plugin avail required)) picks"
    using distributedAlloc_cases [OF assms(1), of plugin avail required sz] assms(2)
    by (auto intro: greedy_no_early_reselection)
qed

theorem C3_distributedAlloc_greedy_witness:
  "greedy_picks (replica_table shared_plugin all8) (mset all8) [''A::0'', ''B::0'', ''B::1''] \<and>
   no_early_reselection (replica_table shared_plugin all8) (mset all8) [''A::0'', ''B::0'', ''B::1'']"
proof -
  from C3_distributedAlloc_greedy [OF stable_runtime_ok alloc_all8]
  have "\<exists>picks. [''A::0'', ''B::0'', ''B::1''] = [] @ picks \<and>
      length picks = nat (3 - int (length ([] :: string list))) \<and>
      greedy_picks (replica_table shared_plugin all8) (mset all8) picks \<and>
      no_early_reselection (replica_table shared_plugin all8) (mset all8) picks"
    unfolding candidates_all8 by (rule conjunct2)
  then show ?thesis by simp
qed

text \<open>
  The claim as stated breaks ties by input order. With two base ids of four replicas
  each, three ids requested and none required, enumerated in input order and sorted by
  the insertion sort, the third pick meets a tie between \<open>A::1\<close> and \<open>B::1\<close> (skew 1
  both): the id picked is \<open>B::1\<close>, which comes after \<open>A::1\<close> in the input; the sort
  before the second pick has moved the replicas of \<open>B\<close> to the front.
\<close>

theorem C3_input_order_counterexample:
  "alloc_candidates stable_runtime shared_plugin all8 [] = all8 \<and>
   distributedAlloc stable_runtime shared_plugin all8 [] 3 = Inr [''A::0'', ''B::0'', ''B::1''] \<and>
   skew (table_after (replica_table shared_plugin all8) [''A::0'', ''B::0'']) ''A::1'' = 1 \<and>
   skew (table_after (replica_table shared_plugin all8) [''A::0'', ''B::0'']) ''B::1'' = 1"
  by (simp add: candidates_all8 alloc_all8)
     (simp add: replica_table_def all8_def shared_plugin_def table_after_def decrement_def skew_def)

section \<open>Crash-loop protection\<close>

lemma serve_loop_Fatal: "restartCount st > 5 \<Longrightarrow> serve_loop st evs = Fatal"
  by (cases evs) auto

lemma crashes_run:
  "serve_loop st (map Crashed ts) = Fatal \<or>
   (\<exists>n. serve_loop st (map Crashed ts) = Serving \<lparr>restartCount = n, lastCrashTime = last (lastCrashTime st # ts)\<rparr>
      \<and> (0 \<le> restartCount st \<longrightarrow> 0 \<le> n))"
proof (induction ts arbitrary: st)
  case Nil
  then show ?case by (cases st) auto
next
  case (Cons t ts)
  show ?case
  proof (cases "restartCount st > 5")
    case True
    then show ?thesis by simp
  next
    case False
    have "lastCrashTime (after_crash st t) = t" by (simp add: after_crash_def)
    moreover have "0 \<le> restartCount st \<longrightarrow> 0 \<le> restartCount (after_crash st t)"
      by (simp add: after_crash_def)
    ultimately show ?thesis using Cons.IH [of "after_crash st t"] False by auto
  qed
qed

lemma serve_loop_append_Fatal:
  "serve_loop st evs = Fatal \<Longrightarrow> serve_loop st (evs @ later) = Fatal"
  by (induction evs arbitrary: st) (auto simp: serve_loop_Fatal split: serve_event.splits if_splits)

lemma serve_loop_append_Serving:
  "serve_loop st evs = Serving st' \<Longrightarrow> serve_loop st (evs @ later) = serve_loop st' later"
proof (induction evs arbitrary: st)
  case Nil
  then show ?case by (cases later) (auto split: if_splits)
next
  case (Cons e evs)
  then show ?case by (auto split: serve_event.splits if_splits)
qed

lemma serve_loop_spaced_within:
  "spaced_within_an_hour (lastCrashTime st) ts \<Longrightarrow> 6 \<le> restartCount st + int (length ts) \<Longrightarrow>
   serve_loop st (map Crashed ts @ later) = Fatal"
proof (induction ts arbitrary: st)
  case Nil
  then show ?case by (simp add: serve_loop_Fatal)
next
  case (Cons t ts)
  show ?case
  proof (cases "restartCount st > 5")
    case True
    then show ?thesis by simp
  next
    case False
    have "restartCount (after_crash st t) = restartCount st + 1" "lastCrashTime (after_crash st t) = t"
      using Cons.prems(1) by (simp_all add: after_crash_def)
    with Cons.IH [of "after_crash st t"] Cons.prems False show ?thesis by simp
  qed
qed

lemma zip_shift_snoc:
  "zip (start # ts @ [t]) (ts @ [t]) = zip (start # ts) ts @ [(last (start # ts), t)]"
  by (induction ts arbitrary: start) auto

lemma counted_failures_Nil: "counted_failures start [] = 0"
  by (simp add: counted_failures_def)

lemma counted_failures_snoc:
  "counted_failures start (ts @ [t]) =
     (if t - last (start # ts) \<le> seconds 3600 then Suc (counted_failures start ts) else 0)"
  unfolding counted_failures_def using zip_shift_snoc [of start ts t] by simp

lemma counted_failures_le: "counted_failures start ts \<le> length ts"
proof -
  have "counted_failures start ts \<le> length (rev (zip (start # ts) ts))"
    unfolding counted_failures_def by (rule length_takeWhile_le)
  then show ?thesis by simp
qed

lemma serve_loop_counted:
  "(serve_loop \<lparr>restartCount = 0, lastCrashTime = start\<rparr> (map Crashed ts) = Fatal
      \<and> (\<exists>n \<le> length ts. 6 \<le> counted_failures start (take n ts))) \<or>
   (serve_loop \<lparr>restartCount = 0, lastCrashTime = start\<rparr> (map Crashed ts)
      = Serving \<lparr>restartCount = int (counted_failures start ts), lastCrashTime = last (start # ts)\<rparr>
      \<and> (\<forall>n \<le> length ts. counted_failures start (take n ts) < 6))"
proof (induction ts rule: rev_induct)
  case Nil
  show ?case by (simp add: counted_failures_Nil)
next
  case (snoc t ts)
  let ?st = "\<lparr>restartCount = 0, lastCrashTime = start\<rparr>"
  from snoc show ?case
  proof
    assume a: "serve_loop ?st (map Crashed ts) = Fatal
      \<and> (\<exists>n \<le> length ts. 6 \<le> counted_failures start (take n ts))"
    then have "serve_loop ?st (map Crashed ts @ [Crashed t]) = Fatal"
      by (intro serve_loop_append_Fatal) simp
    moreover from a obtain n where "n \<le> length ts" "6 \<le> counted_failures start (take n ts)"
      by blast
    then have "n \<le> length (ts @ [t])" "6 \<le> counted_failures start (take n (ts @ [t]))"
      by simp_all
    ultimately show ?thesis by auto
  next
    define L where "L = last (start # ts)"
    define c where "c = counted_failures start ts"
    define c' where "c' = counted_failures start (ts @ [t])"
    let ?st' = "\<lparr>restartCount = int c, lastCrashTime = L\<rparr>"
    assume "serve_loop ?st (map Crashed ts)
        = Serving \<lparr>restartCount = int (counted_failures start ts), lastCrashTime = last (start # ts)\<rparr>
      \<and> (\<forall>n \<le> length ts. counted_failures start (take n ts) < 6)"
    then have a: "serve_loop ?st (map Crashed ts) = Serving ?st'"
      and b: "\<forall>n \<le> length ts. counted_failures start (take n ts) < 6"
      unfolding L_def c_def by blast+
    from b have c: "c < 6" unfolding c_def by auto
    have run: "serve_loop ?st (map Crashed ts @ [Crashed t]) = serve_loop ?st' [Crashed t]"
      using a by (rule serve_loop_append_Serving)
    have c': "c' = (if t - L \<le> seconds 3600 then Suc c else 0)"
      unfolding c'_def c_def L_def by (rule counted_failures_snoc)
    have step: "after_crash ?st' t = \<lparr>restartCount = int c', lastCrashTime = t\<rparr>"
      by (simp add: after_crash_def c')
    have below: "\<forall>n \<le> length ts. counted_failures start (take n (ts @ [t])) < 6"
      using b by simp
    have last: "last (start # ts @ [t]) = t" by simp
    show ?thesis
    proof (cases "c' < 6")
      case True
      have "serve_loop ?st' [Crashed t] = Serving \<lparr>restartCount = int c', lastCrashTime = t\<rparr>"
        using c True by (simp add: step)
      with run have "serve_loop ?st (map Crashed (ts @ [t]))
          = Serving \<lparr>restartCount = int (counted_failures start (ts @ [t])),
                     lastCrashTime = last (start # ts @ [t])\<rparr>"
        unfolding c'_def last by simp
      moreover have "\<forall>n \<le> length (ts @ [t]). counted_failures start (take n (ts @ [t])) < 6"
      proof (intro allI impI)
        fix n assume "n \<le> length (ts @ [t])"
        then consider "n \<le> length ts" | "n = length (ts @ [t])" by fastforce
        then show "counted_failures start (take n (ts @ [t])) < 6"
        proof cases
          case 1 with below show ?thesis by blast
        next
          case 2 with True show ?thesis unfolding c'_def by simp
        qed
      qed
      ultimately show ?thesis by blast
    next
      case False
      have "serve_loop ?st' [Crashed t] = Fatal"
        using c False by (simp add: step)
      with run have "serve_loop ?st (map Crashed (ts @ [t])) = Fatal" by simp
      moreover have "\<exists>n \<le> length (ts @ [t]). 6 \<le> counted_failures start (take n (ts @ [t]))"
        using False unfolding c'_def by (intro exI [of _ "length (ts @ [t])"]) simp
      ultimately show ?thesis by blast
    qed
  qed
qed

lemma serve_loop_spaced_apart:
  "restartCount st \<le> 5 \<Longrightarrow> spaced_over_an_hour (lastCrashTime st) ts \<Longrightarrow>
   serve_loop st (map Crashed ts) \<noteq> Fatal"
proof (induction ts arbitrary: st)
  case Nil
  then show ?case by simp
next
  case (Cons t ts)
  have "restartCount (after_crash st t) = 0" "lastCrashTime (after_crash st t) = t"
    using Cons.prems by (simp_all add: after_crash_def)
  with Cons.IH [of "after_crash st t"] Cons.prems show ?case by simp
qed

text \<open>
  C4 (as amended). The crash-loop protection of a server, fed with the times at which
  the transport fails. The counter counts the failures in a row that each came at most
  an hour after the failure before (the first: after the start of the loop), and a
  failure more than an hour after the previous one resets it to 0. The loop ends
  fatally exactly when that count reaches six at some failure; until then the server
  goes on, with the count in its counter. So up to five failures never end fatally,
  however close; failures each more than an hour after the failure before never end
  fatally, however many and whenever the first comes; and six failures in a row, each
  at most an hour after the one before, end fatally, whatever came earlier and comes
  later.
\<close>

theorem C4_crash_loop_protection:
  "(Serve_goroutine start (map Crashed ts) = Fatal
      \<longleftrightarrow> (\<exists>n \<le> length ts. 6 \<le> counted_failures start (take n ts))) \<and>
   (Serve_goroutine start (map Crashed ts) \<noteq> Fatal \<longrightarrow>
      Serve_goroutine start (map Crashed ts)
        = Serving \<lparr>restartCount = int (counted_failures start ts), lastCrashTime = last (start # ts)\<rparr>) \<and>
   (length ts \<le> 5 \<longrightarrow> Serve_goroutine start (map Crashed ts) \<noteq> Fatal) \<and>
   (spaced_over_an_hour t ts \<longrightarrow> Serve_goroutine start (map Crashed (t # ts)) \<noteq> Fatal) \<and>
   (length ts = 6 \<and> spaced_within_an_hour (last (start # earlier)) ts \<longrightarrow>
      Serve_goroutine start (map Crashed (earlier @ ts) @ later) = Fatal) \<and>
   (now - lastCrashTime st > seconds 3600 \<longrightarrow> restartCount (after_crash st now) = 0) \<and>
   (now - lastCrashTime st \<le> seconds 3600 \<longrightarrow>
      restartCount (after_crash st now) = restartCount st + 1)"
proof -
  let ?st = "\<lparr>restartCount = 0, lastCrashTime = start\<rparr>"
  have 1: "Serve_goroutine start (map Crashed ts) = Fatal
      \<longleftrightarrow> (\<exists>n \<le> length ts. 6 \<le> counted_failures start (take n ts))"
    using serve_loop_counted [of start ts] unfolding Serve_goroutine_def
    by (metis not_le serve_outcome.distinct(3))
  have 2: "Serve_goroutine start (map Crashed ts) \<noteq> Fatal \<longrightarrow>
      Serve_goroutine start (map Crashed ts)
        = Serving \<lparr>restartCount = int (counted_failures start ts), lastCrashTime = last (start # ts)\<rparr>"
    using serve_loop_counted [of start ts] unfolding Serve_goroutine_def by blast
  have 3: "length ts \<le> 5 \<longrightarrow> Serve_goroutine start (map Crashed ts) \<noteq> Fatal"
  proof
    assume l: "length ts \<le> 5"
    have "\<not> (\<exists>n \<le> length ts. 6 \<le> counted_failures start (take n ts))"
    proof
      assume "\<exists>n \<le> length ts. 6 \<le> counted_failures start (take n ts)"
      then obtain n where "n \<le> length ts" "6 \<le> counted_failures start (take n ts)" by blast
      moreover have "counted_failures start (take n ts) \<le> length (take n ts)"
        by (rule counted_failures_le)
      ultimately show False using l by simp
    qed
    with 1 show "Serve_goroutine start (map Crashed ts) \<noteq> Fatal" by blast
  qed
  have 4: "spaced_over_an_hour t ts \<longrightarrow> Serve_goroutine start (map Crashed (t # ts)) \<noteq> Fatal"
  proof
    assume s: "spaced_over_an_hour t ts"
    have "restartCount (after_crash ?st t) \<le> 5" "lastCrashTime (after_crash ?st t) = t"
      by (simp_all add: after_crash_def)
    with s have "serve_loop (after_crash ?st t) (map Crashed ts) \<noteq> Fatal"
      by (intro serve_loop_spaced_apart) simp_all
    then show "Serve_goroutine start (map Crashed (t # ts)) \<noteq> Fatal"
      by (simp add: Serve_goroutine_def)
  qed
  have 5: "length ts = 6 \<and> spaced_within_an_hour (last (start # earlier)) ts \<longrightarrow>
      Serve_goroutine start (map Crashed (earlier @ ts) @ later) = Fatal"
  proof
    assume a: "length ts = 6 \<and> spaced_within_an_hour (last (start # earlier)) ts"
    from crashes_run [of ?st earlier]
    show "Serve_goroutine start (map Crashed (earlier @ ts) @ later) = Fatal"
    proof
      assume "serve_loop ?st (map Crashed earlier) = Fatal"
      then have "serve_loop ?st (map Crashed earlier @ (map Crashed ts @ later)) = Fatal"
        by (rule serve_loop_append_Fatal)
      then show ?thesis by (simp add: Serve_goroutine_def)
    next
      assume "\<exists>n. serve_loop ?st (map Crashed earlier)
          = Serving \<lparr>restartCount = n, lastCrashTime = last (lastCrashTime ?st # earlier)\<rparr>
        \<and> (0 \<le> restartCount ?st \<longrightarrow> 0 \<le> n)"
      then obtain n where n: "serve_loop ?st (map Crashed earlier)
          = Serving \<lparr>restartCount = n, lastCrashTime = last (start # earlier)\<rparr>" "0 \<le> n"
        by auto
      let ?st' = "\<lparr>restartCount = n, lastCrashTime = last (start # earlier)\<rparr>"
      have "serve_loop ?st (map Crashed earlier @ (map Crashed ts @ later))
          = serve_loop ?st' (map Crashed ts @ later)"
        using n(1) by (rule serve_loop_append_Serving)
      also have "\<dots> = Fatal"
        using a n(2) by (intro serve_loop_spaced_within) auto
      finally show ?thesis by (simp add: Serve_goroutine_def)
    qed
  qed
  have 6: "now - lastCrashTime st > seconds 3600 \<longrightarrow> restartCount (after_crash st now) = 0"
    by (simp add: after_crash_def)
  have 7: "now - lastCrashTime st \<le> seconds 3600 \<longrightarrow>
      restartCount (after_crash st now) = restartCount st + 1"
    by (simp add: after_crash_def)
  from 1 2 3 4 5 6 7 show ?thesis by (intro conjI)
qed

theorem C4_crash_loop_witness:
  "Serve_goroutine 0 (map Crashed [seconds 100, seconds 200, seconds 300, seconds 400, seconds 500])
     = Serving \<lparr>restartCount = 5, lastCrashTime = seconds 500\<rparr> \<and>
   Serve_goroutine 0 (map Crashed [seconds 100, seconds 3701, seconds 7302, seconds 10903,
       seconds 14504, seconds 18105, seconds 21706])
     = Serving \<lparr>restartCount = 0, lastCrashTime = seconds 21706\<rparr> \<and>
   Serve_goroutine 0 (map Crashed ([seconds 4000] @
       [seconds 4600, seconds 5200, seconds 5800, seconds 6400, seconds 7000, seconds 7600]) @ [Returned])
     = Fatal \<and>
   restartCount (after_crash \<lparr>restartCount = 3, lastCrashTime = seconds 10\<rparr> (seconds 3611)) = 0 \<and>
   restartCount (after_crash \<lparr>restartCount = 3, lastCrashTime = seconds 10\<rparr> (seconds 3610)) = 4"
proof -
  let ?five = "[seconds 100, seconds 200, seconds 300, seconds 400, seconds 500]"
  let ?apart = "[seconds 3701, seconds 7302, seconds 10903, seconds 14504, seconds 18105, seconds 21706]"
  let ?six = "[seconds 4600, seconds 5200, seconds 5800, seconds 6400, seconds 7000, seconds 7600]"
  let ?st = "\<lparr>restartCount = 3, lastCrashTime = seconds 10\<rparr>"
  have five: "counted_failures 0 ?five = 5" "length ?five \<le> 5" "last (0 # ?five) = seconds 500"
    by (simp_all add: counted_failures_def seconds_def)
  have apart: "counted_failures 0 (seconds 100 # ?apart) = 0" "spaced_over_an_hour (seconds 100) ?apart"
    "last (0 # seconds 100 # ?apart) = seconds 21706"
    by (simp_all add: counted_failures_def seconds_def)
  have six: "length ?six = 6" "spaced_within_an_hour (last (0 # [seconds 4000])) ?six"
    by (simp_all add: seconds_def)
  have gaps: "seconds 3611 - lastCrashTime ?st > seconds 3600"
    "seconds 3610 - lastCrashTime ?st \<le> seconds 3600"
    by (simp_all add: seconds_def)
  note five_thm = C4_crash_loop_protection [where start = 0 and ts = ?five and t = "seconds 100"
      and earlier = "[]" and later = "[]" and now = "seconds 3611" and st = ?st]
  from five_thm five(2) have "Serve_goroutine 0 (map Crashed ?five) \<noteq> Fatal" by blast
  with five_thm have "Serve_goroutine 0 (map Crashed ?five)
      = Serving \<lparr>restartCount = int (counted_failures 0 ?five), lastCrashTime = last (0 # ?five)\<rparr>"
    by blast
  then have 1: "Serve_goroutine 0 (map Crashed ?five)
      = Serving \<lparr>restartCount = 5, lastCrashTime = seconds 500\<rparr>"
    by (simp only: five of_nat_numeral)
  note apart_thm = C4_crash_loop_protection [where start = 0 and ts = "seconds 100 # ?apart"
      and t = "seconds 100" and earlier = "[]" and later = "[]" and now = "seconds 3611" and st = ?st]
  note apart_thm' = C4_crash_loop_protection [where start = 0 and ts = ?apart
      and t = "seconds 100" and earlier = "[]" and later = "[]" and now = "seconds 3611" and st = ?st]
  from apart_thm' apart(2) have "Serve_goroutine 0 (map Crashed (seconds 100 # ?apart)) \<noteq> Fatal"
    by blast
  with apart_thm have "Serve_goroutine 0 (map Crashed (seconds 100 # ?apart))
      = Serving \<lparr>restartCount = int (counted_failures 0 (seconds 100 # ?apart)),
                 lastCrashTime = last (0 # seconds 100 # ?apart)\<rparr>"
    by blast
  then have 2: "Serve_goroutine 0 (map Crashed (seconds 100 # ?apart))
      = Serving \<lparr>restartCount = 0, lastCrashTime = seconds 21706\<rparr>"
    by (simp only: apart of_nat_0)
  note six_thm = C4_crash_loop_protection [where start = 0 and ts = ?six and t = 0
      and earlier = "[seconds 4000]" and later = "[Returned]" and now = "seconds 3611" and st = ?st]
  from six_thm six gaps(1)
  have 3: "Serve_goroutine 0 (map Crashed ([seconds 4000] @ ?six) @ [Returned]) = Fatal"
    and 4: "restartCount (after_crash ?st (seconds 3611)) = 0"
    by blast+
  from C4_crash_loop_protection [where start = 0 and ts = ?six and t = 0
      and earlier = "[seconds 4000]" and later = "[Returned]" and now = "seconds 3610" and st = ?st]
    gaps(2)
  have "restartCount (after_crash ?st (seconds 3610)) = restartCount ?st + 1" by blast
  then have 5: "restartCount (after_crash ?st (seconds 3610)) = 4" by simp
  from 1 2 3 4 5 show ?thesis by simp
qed

text \<open>
  The claim as stated fails for six failures within one hour when the first of them
  comes more than an hour after the loop started: that failure resets the counter
  instead of counting, the counter stands at 5 after the sixth, and the server goes on.
\<close>

theorem C4_six_failures_counterexample:
  "Serve_goroutine 0
     (map Crashed [seconds 4000, seconds 4001, seconds 4002, seconds 4003, seconds 4004, seconds 4005])
     = Serving \<lparr>restartCount = 5, lastCrashTime = seconds 4005\<rparr> \<and>
   seconds 4005 - seconds 4000 \<le> seconds 3600"
  by (simp add: Serve_goroutine_def after_crash_def seconds_def)

section \<open>The wildcard matcher\<close>

lemma Split_star_Nil: "strings_Split [] ''*'' = [[]]"
  by (subst strings_Split.simps) simp

lemma Split_nonempty: "strings_Split s sep \<noteq> [] \<or> s = []"
  by (subst strings_Split.simps) (auto split: option.splits)

lemma Split_star_nonempty: "strings_Split s ''*'' \<noteq> []"
  using Split_nonempty [of s "''*''"] Split_star_Nil by auto

lemma Split_star_Cons:
  "strings_Split (c # s) ''*'' =
     (if c = CHR ''*'' then [] # strings_Split s ''*''
      else (c # hd (strings_Split s ''*'')) # tl (strings_Split s ''*''))"
proof (cases "c = CHR ''*''")
  case True
  then show ?thesis by (subst strings_Split.simps) simp
next
  case False
  show ?thesis
  proof (cases "strings_Index s ''*''")
    case None
    then have "strings_Split s ''*'' = [s]" by (subst strings_Split.simps) simp
    moreover have "strings_Split (c # s) ''*'' = [c # s]"
      using None False by (subst strings_Split.simps) simp
    ultimately show ?thesis using False by simp
  next
    case (Some m)
    then have "strings_Split s ''*'' = take m s # strings_Split (drop (m + 1) s) ''*''"
      by (subst strings_Split.simps) simp
    moreover have "strings_Split (c # s) ''*'' = (c # take m s) # strings_Split (drop (m + 1) s) ''*''"
      using Some False by (subst strings_Split.simps) simp
    ultimately show ?thesis using False by simp
  qed
qed

lemma QuoteMeta_append: "QuoteMeta (xs @ ys) = QuoteMeta xs @ QuoteMeta ys"
  by (induction xs) auto

lemma wildCardToRegexp_loop_later:
  "i > 0 \<Longrightarrow> wildCardToRegexp_loop i pieces result
     = result @ concat (map (\<lambda>l. ''.*'' @ QuoteMeta l) pieces)"
  by (induction pieces arbitrary: i result) auto

lemma wildCardToRegexp_loop_first:
  "wildCardToRegexp_loop 0 (l # ls) [] = QuoteMeta l @ concat (map (\<lambda>l. ''.*'' @ QuoteMeta l) ls)"
  by (simp add: wildCardToRegexp_loop_later)

lemma wildCardToRegexp_chars:
  "wildCardToRegexp p = concat (map (\<lambda>c. if c = CHR ''*'' then ''.*'' else QuoteMeta [c]) p)"
proof -
  let ?J = "\<lambda>ps. QuoteMeta (hd ps) @ concat (map (\<lambda>l. ''.*'' @ QuoteMeta l) (tl ps))"
  have J: "?J (strings_Split p ''*'')
      = concat (map (\<lambda>c. if c = CHR ''*'' then ''.*'' else QuoteMeta [c]) p)"
  proof (induction p)
    case Nil
    then show ?case by (simp add: Split_star_Nil)
  next
    case (Cons c p)
    obtain l ls where sp: "strings_Split p ''*'' = l # ls"
      using Split_star_nonempty [of p] by (cases "strings_Split p ''*''") auto
    show ?case
    proof (cases "c = CHR ''*''")
      case True
      then show ?thesis using Cons.IH sp by (simp add: Split_star_Cons)
    next
      case False
      have "QuoteMeta (c # l) = QuoteMeta [c] @ QuoteMeta l"
        using QuoteMeta_append [of "[c]" l] by simp
      then show ?thesis using False Cons.IH sp by (simp add: Split_star_Cons)
    qed
  qed
  obtain l ls where "strings_Split p ''*'' = l # ls"
    using Split_star_nonempty [of p] by (cases "strings_Split p ''*''") auto
  then show ?thesis
    using J wildCardToRegexp_loop_first [of l ls]
    by (simp add: wildCardToRegexp_def del: wildCardToRegexp_loop.simps)
qed

lemma special_escapable: "special c \<Longrightarrow> (of_char c :: nat) < 128 \<and> \<not> isalnum c"
  by (auto simp: special_def isalnum_def backslash_def)

lemma parse_atom_special:
  "special c \<Longrightarrow> parse_atom (backslash # c # rest) = Some (Lit c, rest)"
  using special_escapable [of c] by simp

lemma parse_atom_plain:
  "\<not> special c \<Longrightarrow> parse_atom (c # rest) = Some (Lit c, rest)"
  by (auto simp: special_def)

lemma parse_atom_dot: "parse_atom (CHR ''.'' # rest) = Some (AnyNotNL, rest)"
  by (simp add: backslash_def)

lemma encoded_no_star_first:
  "concat (map (\<lambda>c. if c = CHR ''*'' then ''.*'' else QuoteMeta [c]) p) = d # rest
     \<Longrightarrow> d \<noteq> CHR ''*''"
  by (cases p) (auto simp: special_def backslash_def split: if_splits)

lemma parse_items_Nil: "parse_items [] = Some []"
  by (subst parse_items.simps) simp

lemma parse_items_single:
  assumes "parse_atom s = Some (a, rest)" and "\<And>d r. rest = d # r \<Longrightarrow> d \<noteq> CHR ''*''"
  shows "parse_items s = map_option (Cons (Single a)) (parse_items rest)"
proof (cases rest)
  case Nil
  from assms(1) have "s \<noteq> []" by auto
  with Nil assms(1) show ?thesis
    by (subst parse_items.simps) (simp add: parse_items_Nil del: parse_atom.simps)
next
  case (Cons d r)
  from assms(1) have "s \<noteq> []" by auto
  moreover from Cons assms(2) have "d \<noteq> CHR ''*''" by blast
  ultimately show ?thesis using Cons assms(1)
    by (subst parse_items.simps) (simp del: parse_atom.simps)
qed

lemma parse_items_many:
  assumes "parse_atom s = Some (a, CHR ''*'' # rest)"
  shows "parse_items s = map_option (Cons (Many a)) (parse_items rest)"
proof -
  from assms have "s \<noteq> []" by auto
  with assms show ?thesis
    by (subst parse_items.simps) (simp del: parse_atom.simps)
qed

lemma parse_items_encoded:
  "parse_items (concat (map (\<lambda>c. if c = CHR ''*'' then ''.*'' else QuoteMeta [c]) p))
     = Some (map (\<lambda>c. if c = CHR ''*'' then Many AnyNotNL else Single (Lit c)) p)"
proof (induction p)
  case Nil
  then show ?case by (simp add: parse_items_Nil)
next
  case (Cons c p)
  define rest where "rest = concat (map (\<lambda>c. if c = CHR ''*'' then ''.*'' else QuoteMeta [c]) p)"
  have star: "\<And>d r. rest = d # r \<Longrightarrow> d \<noteq> CHR ''*''"
    unfolding rest_def by (rule encoded_no_star_first)
  have IH: "parse_items rest
      = Some (map (\<lambda>c. if c = CHR ''*'' then Many AnyNotNL else Single (Lit c)) p)"
    unfolding rest_def by (rule Cons.IH)
  have "parse_items ((if c = CHR ''*'' then ''.*'' else QuoteMeta [c]) @ rest)
      = Some ((if c = CHR ''*'' then Many AnyNotNL else Single (Lit c))
          # map (\<lambda>c. if c = CHR ''*'' then Many AnyNotNL else Single (Lit c)) p)"
  proof (cases "c = CHR ''*''")
    case True
    have "parse_items (CHR ''.'' # CHR ''*'' # rest) = map_option (Cons (Many AnyNotNL)) (parse_items rest)"
      by (rule parse_items_many) (rule parse_atom_dot)
    with True IH show ?thesis by simp
  next
    case False
    show ?thesis
    proof (cases "special c")
      case True
      have "parse_items (backslash # c # rest) = map_option (Cons (Single (Lit c))) (parse_items rest)"
        using parse_atom_special [OF True, of rest] star by (rule parse_items_single)
      with True False IH show ?thesis by simp
    next
      case nsp: False
      have "parse_items (c # rest) = map_option (Cons (Single (Lit c))) (parse_items rest)"
        using parse_atom_plain [OF nsp, of rest] star by (rule parse_items_single)
      with nsp False IH show ?thesis by simp
    qed
  qed
  then show ?case by (simp add: rest_def)
qed

lemma match_here_glob:
  "match_here (map (\<lambda>c. if c = CHR ''*'' then Many AnyNotNL else Single (Lit c)) p) s
     \<longleftrightarrow> (\<exists>mid post. s = mid @ post \<and> glob_match (\<lambda>c. c \<noteq> newline) p mid)"
proof (induction p arbitrary: s)
  case Nil
  then show ?case by simp
next
  case (Cons c p)
  let ?tok = "\<lambda>c. if c = CHR ''*'' then Many AnyNotNL else Single (Lit c)"
  let ?G = "glob_match (\<lambda>c. c \<noteq> newline)"
  show ?case
  proof (cases "c = CHR ''*''")
    case False
    show ?thesis
    proof (cases s)
      case Nil
      with False show ?thesis by simp
    next
      case (Cons d s')
      have "(\<exists>mid post. d # s' = mid @ post \<and> ?G (c # p) mid)
          \<longleftrightarrow> (d = c \<and> (\<exists>mid' post. s' = mid' @ post \<and> ?G p mid'))"
        (is "?L \<longleftrightarrow> ?R")
      proof
        assume ?L
        then obtain mid post where m: "d # s' = mid @ post" "?G (c # p) mid" by blast
        with False obtain e mid' where "mid = e # mid'" by (cases mid) auto
        with m False show ?R by auto
      next
        assume ?R
        then obtain mid' post where "d = c" "s' = mid' @ post" "?G p mid'" by blast
        with False have "d # s' = (d # mid') @ post" "?G (c # p) (d # mid')" by auto
        then show ?L by blast
      qed
      with Cons False Cons.IH [of s'] show ?thesis by auto
    qed
  next
    case True
    have "match_here (Many AnyNotNL # map ?tok p) s
        \<longleftrightarrow> (\<exists>mid post. s = mid @ post \<and> ?G (CHR ''*'' # p) mid)"
    proof (induction s)
      case Nil
      then show ?case using Cons.IH [of "[]"] by simp
    next
      case (Cons d s')
      have "(\<exists>mid post. d # s' = mid @ post \<and> ?G (CHR ''*'' # p) mid)
          \<longleftrightarrow> (\<exists>mid post. d # s' = mid @ post \<and> ?G p mid)
              \<or> (d \<noteq> newline \<and> (\<exists>mid' post. s' = mid' @ post \<and> ?G (CHR ''*'' # p) mid'))"
        (is "?L \<longleftrightarrow> ?A \<or> ?B")
      proof
        assume ?L
        then obtain mid post where m: "d # s' = mid @ post" "?G (CHR ''*'' # p) mid" by blast
        show "?A \<or> ?B"
        proof (cases mid)
          case Nil
          with m(2) have "?G p []" by simp
          then have "d # s' = [] @ (d # s') \<and> ?G p []" by simp
          then have ?A by blast
          then show ?thesis ..
        next
          case (Cons e mid')
          with m have e: "e = d" "s' = mid' @ post" by auto
          from m(2) Cons e have "?G p (d # mid') \<or> (d \<noteq> newline \<and> ?G (CHR ''*'' # p) mid')"
            by simp
          then show ?thesis
          proof
            assume "?G p (d # mid')"
            with e have "d # s' = (d # mid') @ post \<and> ?G p (d # mid')" by simp
            then have ?A by blast
            then show ?thesis ..
          next
            assume "d \<noteq> newline \<and> ?G (CHR ''*'' # p) mid'"
            with e have ?B by blast
            then show ?thesis ..
          qed
        qed
      next
        assume "?A \<or> ?B"
        then show ?L
        proof
          assume ?A
          then obtain mid post where m: "d # s' = mid @ post" "?G p mid" by blast
          then have "?G (CHR ''*'' # p) mid" by (cases mid) auto
          with m(1) show ?L by blast
        next
          assume ?B
          then obtain mid' post where m: "d \<noteq> newline" "s' = mid' @ post" "?G (CHR ''*'' # p) mid'"
            by blast
          then have "d # s' = (d # mid') @ post" "?G (CHR ''*'' # p) (d # mid')" by auto
          then show ?L by blast
        qed
      qed
      with Cons.IH \<open>\<And>s. match_here (map ?tok p) s = (\<exists>mid post. s = mid @ post \<and> ?G p mid)\<close> [of "d # s'"]
      show ?case by simp
    qed
    with True show ?thesis by simp
  qed
qed

lemma match_anywhere_iff:
  "match_anywhere re s \<longleftrightarrow> (\<exists>pre rest. s = pre @ rest \<and> match_here re rest)"
proof (induction s)
  case Nil
  then show ?case by simp
next
  case (Cons c s)
  have "(\<exists>pre rest. c # s = pre @ rest \<and> match_here re rest)
      \<longleftrightarrow> match_here re (c # s) \<or> (\<exists>pre rest. s = pre @ rest \<and> match_here re rest)"
    by (auto simp: Cons_eq_append_conv) 
  with Cons show ?case by simp
qed

lemma ascii_utf8_ValidString: "ascii s \<Longrightarrow> utf8_ValidString s"
  by (induction s) (simp_all add: ascii_def byte_in_def)

lemma ascii_QuoteMeta: "ascii s \<Longrightarrow> ascii (QuoteMeta s)"
  by (induction s) (simp_all add: ascii_def backslash_def)

lemma ascii_wildCardToRegexp: "ascii p \<Longrightarrow> ascii (wildCardToRegexp p)"
proof -
  assume "ascii p"
  then have "ascii (concat (map (\<lambda>c. if c = CHR ''*'' then ''.*'' else QuoteMeta [c]) p))"
    by (induction p) (auto simp: ascii_def backslash_def)
  then show ?thesis by (simp add: wildCardToRegexp_chars)
qed

lemma matcher_substring_glob:
  "ascii P \<Longrightarrow> pattern_matches P S =
     Inr (\<exists>before mid after. S = before @ mid @ after \<and> glob_match (\<lambda>c. c \<noteq> newline) P mid)"
proof -
  assume "ascii P"
  then have "utf8_ValidString (wildCardToRegexp P)"
    by (intro ascii_utf8_ValidString ascii_wildCardToRegexp)
  moreover have "parse_items (wildCardToRegexp P)
      = Some (map (\<lambda>c. if c = CHR ''*'' then Many AnyNotNL else Single (Lit c)) P)"
    by (simp add: wildCardToRegexp_chars parse_items_encoded)
  ultimately show ?thesis
    by (simp add: pattern_matches_def regexp_MatchString_def regexp_parse_def
        match_anywhere_iff match_here_glob)
       blast
qed

text \<open>
  C1 (as amended). For every wildcard pattern \<open>P\<close> of ASCII characters and every string
  \<open>S\<close>, the matcher does not fail, and it accepts \<open>S\<close> if and only if some substring of
  \<open>S\<close> fully matches \<open>P\<close> under glob semantics in which a star matches any substring
  without a newline and every other character is literal. The match is not anchored: a
  pattern that matches a part of the name accepts the name.
\<close>

theorem C1_wildcard_matcher:
  "ascii P \<Longrightarrow> pattern_matches P S =
     Inr (\<exists>before mid after. S = before @ mid @ after \<and> glob_match (\<lambda>c. c \<noteq> newline) P mid)"
  by (rule matcher_substring_glob)

lemma parse_items_eval:
  "parse_items (c # s) =
     (case parse_atom (c # s) of
        None \<Rightarrow> None
      | Some (a, rest) \<Rightarrow>
          (case rest of
             [] \<Rightarrow> Some [Single a]
           | c # rest' \<Rightarrow>
               if c = CHR ''*'' then map_option (Cons (Many a)) (parse_items rest')
               else map_option (Cons (Single a)) (parse_items rest)))"
  by (subst parse_items.simps) simp

lemmas eval_matcher = pattern_matches_def regexp_MatchString_def regexp_parse_def
  wildCardToRegexp_def
  Split_star_Nil Split_star_Cons parse_items_Nil parse_items_eval special_def backslash_def
  newline_def isalnum_def byte_in_def

theorem C1_wildcard_matcher_witness:
  "ascii ''NVIDIA*GPU'' \<and>
   pattern_matches ''NVIDIA*GPU'' ''NVIDIA RTX A2000 Laptop GPU'' = Inr True \<and>
   (\<exists>before mid after. ''NVIDIA RTX A2000 Laptop GPU'' = before @ mid @ after \<and>
        glob_match (\<lambda>c. c \<noteq> newline) ''NVIDIA*GPU'' mid)"
proof -
  have a: "ascii ''NVIDIA*GPU''" by (simp add: ascii_def)
  have "pattern_matches ''NVIDIA*GPU'' ''NVIDIA RTX A2000 Laptop GPU'' = Inr True"
    by (simp add: eval_matcher)
  with C1_wildcard_matcher [OF a, of "''NVIDIA RTX A2000 Laptop GPU''"] a
  show ?thesis by simp
qed

text \<open>
  The claim as stated fails on three counts: the pattern \<open>GPU\<close> accepts \<open>xGPUx\<close>, which
  it does not fully match; \<open>a*b\<close> does not accept an \<open>a\<close> and a \<open>b\<close> with a newline
  between them, which it fully matches when a star matches any substring; and the
  pattern of the one byte \<open>0xFF\<close>, which is not UTF-8, makes the matcher fail on the
  string that it fully matches.
\<close>

theorem C1_substring_counterexample:
  "pattern_matches ''GPU'' ''xGPUx'' = Inr True \<and>
   \<not> glob_match (\<lambda>c. True) ''GPU'' ''xGPUx'' \<and>
   pattern_matches ''a*b'' [CHR ''a'', newline, CHR ''b''] = Inr False \<and>
   glob_match (\<lambda>c. True) ''a*b'' [CHR ''a'', newline, CHR ''b''] \<and>
   pattern_matches [CHR 0xFF] [CHR 0xFF] = Inl (RegexpError [CHR 0xFF]) \<and>
   glob_match (\<lambda>c. True) [CHR 0xFF] [CHR 0xFF]"
  by (simp add: eval_matcher)

section \<open>Starting the servers\<close>

lemma Start_invoked_on_append [simp]:
  "Start_invoked_on (xs @ ys) = Start_invoked_on xs @ Start_invoked_on ys"
  by (simp add: Start_invoked_on_def)

lemma Start_open:
  assumes "\<not> stop_closed s"
  shows "\<exists>s'. Start env s = Inr (s', \<not> Start_succeeds env s)"
proof (cases "Serve_Register env s")
  case ServeFails
  with assms have "Start env s = Inr (s\<lparr>stop_closed := True\<rparr>, \<not> Start_succeeds env s)"
    by (simp add: Start_def cleanup_def Start_succeeds_def)
  then show ?thesis ..
next
  case RegisterFails
  with assms have "Start env s
      = Inr (if Remove_fails env s then s else s\<lparr>stop_closed := True\<rparr>, \<not> Start_succeeds env s)"
    by (simp add: Start_def Stop_def cleanup_def Start_succeeds_def)
  then show ?thesis ..
next
  case Registers
  then have "Start env s = Inr (s, \<not> Start_succeeds env s)"
    by (simp add: Start_def Start_succeeds_def)
  then show ?thesis ..
qed

lemma startPlugins_loop_calls:
  "\<forall>s \<in> set ps. \<not> stop_closed s \<Longrightarrow>
   \<exists>ps' n' r calls'. startPlugins_loop env ps n calls = Inr (ps', n', r, calls') \<and>
     Start_invoked_on calls' =
       Start_invoked_on calls @
         (let ne = filter (\<lambda>p. devices p \<noteq> []) ps
          in takeWhile (Start_succeeds env) ne @ take 1 (dropWhile (Start_succeeds env) ne))"
proof (induction ps arbitrary: n calls)
  case Nil
  have "startPlugins_loop env [] n calls = Inr ([], n, False, calls)" by simp
  then show ?case by (intro exI [of _ "[]"] exI [of _ n] exI [of _ False] exI [of _ calls]) simp
next
  case (Cons p ps)
  then have "\<not> stop_closed p" and rest: "\<forall>s \<in> set ps. \<not> stop_closed s" by simp_all
  then obtain p' where st: "Start env p = Inr (p', \<not> Start_succeeds env p)"
    using Start_open [of p env] by blast
  show ?case
  proof (cases "devices p = []")
    case True
    from Cons.IH [OF rest, of n calls] True show ?thesis by (auto simp: Let_def)
  next
    case ne: False
    show ?thesis
    proof (cases "Start_succeeds env p")
      case False
      with ne st show ?thesis by (auto simp: Start_invoked_on_def Let_def)
    next
      case True
      from Cons.IH [OF rest, of "n + 1" "calls @ [StartCall p]"] True ne st
      show ?thesis by (auto simp: Start_invoked_on_def Let_def)
    qed
  qed
qed

lemma strings_Split_eval:
  "strings_Split s (c # sep) =
     (case strings_Index s (c # sep) of
        None \<Rightarrow> [s]
      | Some m \<Rightarrow> take m s # strings_Split (drop (m + length (c # sep)) s) (c # sep))"
  by (subst strings_Split.simps) simp

text \<open>The socket of the server of a resource; \<^verbatim>\<open>filepath.Join\<close> cleans the path.\<close>

lemma socket_of_gpu_resource:
  "socket (NewNvidiaDevicePlugin ''nvidia.com/gpu'' [])
     = ''/var/lib/kubelet/device-plugins/nvidia-gpu.sock''"
  by (simp add: NewNvidiaDevicePlugin_def GetResourceName_def strings_SplitN2_def
      DevicePluginPath_def filepath_Join_def filepath_Clean_def strings_Split_eval Let_def)

lemma socket_cleaned:
  "socket (NewNvidiaDevicePlugin ''a/b/../c'' [])
     = ''/var/lib/kubelet/device-plugins/c.sock''"
  by (simp add: NewNvidiaDevicePlugin_def GetResourceName_def strings_SplitN2_def
      DevicePluginPath_def filepath_Join_def filepath_Clean_def strings_Split_eval Let_def)

text \<open>LoadPlugins makes servers whose stop channels are open.\<close>

lemma loadPlugins_open:
  assumes "\<forall>s \<in> set (pm_plugins p). \<not> stop_closed s"
  shows "\<forall>s \<in> set (pm_plugins (fst (loadPlugins rt p))). \<not> stop_closed s"
  using assms
  by (auto simp: loadPlugins_def Let_def NewNvidiaDevicePlugin_def List.map_filter_def
      split: prod.splits option.splits)

text \<open>
  C8 (as amended). In a StartPlugins pass of a manager that has not started its servers
  before, over servers whose stop channels are open (the servers as LoadPlugins makes
  them), the pass returns and \<^verbatim>\<open>Start\<close> is invoked on the servers with a non-empty
  inventory, in order, up to and including the first one whose \<^verbatim>\<open>Start\<close> fails: never
  on a server with an empty inventory, and on exactly the servers with a non-empty
  inventory when no \<^verbatim>\<open>Start\<close> fails (over one empty and one two-device resource,
  exactly one server is started).
\<close>

theorem C8_startPlugins_targets:
  assumes "\<not> pm_started p" and "\<forall>s \<in> set (pm_plugins p). \<not> stop_closed s"
  shows "\<exists>p' calls. startPlugins env p = Inr (p', calls) \<and>
     Start_invoked_on calls =
       (let ne = filter (\<lambda>s. devices s \<noteq> []) (pm_plugins p)
        in takeWhile (Start_succeeds env) ne @ take 1 (dropWhile (Start_succeeds env) ne)) \<and>
     (\<forall>s \<in> set (Start_invoked_on calls). devices s \<noteq> []) \<and>
     ((\<forall>s \<in> set (pm_plugins p). devices s \<noteq> [] \<longrightarrow> Start_succeeds env s) \<longrightarrow>
        Start_invoked_on calls = filter (\<lambda>s. devices s \<noteq> []) (pm_plugins p))"
proof -
  let ?ok = "Start_succeeds env"
  let ?ne = "filter (\<lambda>s. devices s \<noteq> []) (pm_plugins p)"
  from startPlugins_loop_calls [OF assms(2), of env 0 "[]"]
  obtain ps' n' r calls where loop: "startPlugins_loop env (pm_plugins p) 0 [] = Inr (ps', n', r, calls)"
    and calls: "Start_invoked_on calls = takeWhile ?ok ?ne @ take 1 (dropWhile ?ok ?ne)"
    by (auto simp: Let_def Start_invoked_on_def)
  let ?p' = "p\<lparr>pm_plugins := ps', pm_started := True,
                pm_restartTimeout := (if r then True else pm_restartTimeout p)\<rparr>"
  have 0: "startPlugins env p = Inr (?p', calls)"
    using assms(1) loop by (simp add: startPlugins_def)
  have 2: "\<forall>s \<in> set (Start_invoked_on calls). devices s \<noteq> []"
  proof
    fix s assume "s \<in> set (Start_invoked_on calls)"
    then have "s \<in> set (takeWhile ?ok ?ne) \<or> s \<in> set (dropWhile ?ok ?ne)"
      unfolding calls by (auto dest: in_set_takeD)
    then have "s \<in> set ?ne" by (auto dest: set_takeWhileD set_dropWhileD)
    then show "devices s \<noteq> []" by simp
  qed
  have 3: "(\<forall>s \<in> set (pm_plugins p). devices s \<noteq> [] \<longrightarrow> ?ok s) \<longrightarrow>
      Start_invoked_on calls = ?ne"
  proof
    assume "\<forall>s \<in> set (pm_plugins p). devices s \<noteq> [] \<longrightarrow> ?ok s"
    then have all: "\<forall>s \<in> set ?ne. ?ok s" by simp
    have tw: "takeWhile ?ok ?ne = ?ne"
      using all by (simp only: takeWhile_eq_all_conv)
    have dw: "dropWhile ?ok ?ne = []"
      using all by (simp only: dropWhile_eq_Nil_conv)
    show "Start_invoked_on calls = ?ne"
      unfolding calls tw dw by simp
  qed
  from 0 calls 2 3 show ?thesis unfolding Let_def by blast
qed

theorem C8_startPlugins_witness:
  "\<not> pm_started (manager_of [] [empty_plugin, two_gpu_plugin]) \<and>
   \<not> stop_closed empty_plugin \<and> \<not> stop_closed two_gpu_plugin \<and>
   (\<exists>p' calls. startPlugins all_start (manager_of [] [empty_plugin, two_gpu_plugin]) = Inr (p', calls)
      \<and> Start_invoked_on calls = [two_gpu_plugin])"
proof -
  let ?m = "manager_of [] [empty_plugin, two_gpu_plugin]"
  have h: "\<not> pm_started ?m" "\<forall>s \<in> set (pm_plugins ?m). \<not> stop_closed s"
    by (simp_all add: manager_of_def empty_plugin_def two_gpu_plugin_def)
  have e: "filter (\<lambda>s. devices s \<noteq> []) (pm_plugins ?m) = [two_gpu_plugin]"
    "Start_succeeds all_start two_gpu_plugin"
    by (simp_all add: manager_of_def empty_plugin_def two_gpu_plugin_def Start_succeeds_def
        all_start_def)
  have tw: "takeWhile (Start_succeeds all_start) [two_gpu_plugin]
      @ take 1 (dropWhile (Start_succeeds all_start) [two_gpu_plugin]) = [two_gpu_plugin]"
    using e(2) by simp
  from C8_startPlugins_targets [OF h, of all_start]
  obtain p' calls where "startPlugins all_start ?m = Inr (p', calls)"
    and "Start_invoked_on calls =
       (let ne = filter (\<lambda>s. devices s \<noteq> []) (pm_plugins ?m)
        in takeWhile (Start_succeeds all_start) ne @ take 1 (dropWhile (Start_succeeds all_start) ne))"
    by blast
  then have "startPlugins all_start ?m = Inr (p', calls) \<and> Start_invoked_on calls = [two_gpu_plugin]"
    by (simp only: Let_def e(1) tw)
  then have "\<exists>p' calls. startPlugins all_start ?m = Inr (p', calls) \<and>
      Start_invoked_on calls = [two_gpu_plugin]"
    by blast
  moreover have "\<not> stop_closed empty_plugin" "\<not> stop_closed two_gpu_plugin"
    by (simp_all add: empty_plugin_def two_gpu_plugin_def)
  ultimately show ?thesis using h(1) by blast
qed

text \<open>
  The claim as stated fails when a \<^verbatim>\<open>Start\<close> fails: the loop breaks, the retry timer
  is set, and the servers after the failing one are not started in this pass although
  their inventories are not empty. The retry pass that the timer brings starts no
  server at all: it stops the servers first, and \<^verbatim>\<open>Stop\<close> of the server whose \<^verbatim>\<open>Start\<close>
  failed closes its stop channel a second time, which panics.
\<close>

lemmas eval_manager = startPlugins_def Start_def Stop_def cleanup_def manager_of_def
  two_gpu_plugin_def shared_plugin_def Start_invoked_on_def gpu_fails_to_serve_def

theorem C8_startPlugins_counterexample:
  "(\<exists>p' calls.
      startPlugins gpu_fails_to_serve (manager_of [] [two_gpu_plugin, shared_plugin]) = Inr (p', calls) \<and>
      Start_invoked_on calls = [two_gpu_plugin] \<and>
      pm_restartTimeout p' \<and>
      startPlugins gpu_fails_to_serve p' = Inl CloseOfClosedChannel) \<and>
   devices shared_plugin \<noteq> []"
  by (simp add: eval_manager)

section \<open>A failing build of the Device Map\<close>

lemma BuildDevice_error_iff: "isl (BuildDevice index info) \<longleftrightarrow> read_fails info"
  by (auto simp: BuildDevice_def read_fails_def split: option.splits prod.splits)

lemma setEntry_error:
  "snd (setEntry d name index info) \<noteq> None \<longleftrightarrow> read_fails info"
  "snd (setEntry d name index info) \<noteq> None \<Longrightarrow> fst (setEntry d name index info) = d"
  using BuildDevice_error_iff [of index info]
  by (auto simp: setEntry_def Let_def split: sum.splits)

lemma classify_error:
  "snd (classify rs d name index info) \<noteq> None \<Longrightarrow> fst (classify rs d name index info) = d"
  using setEntry_error(2) by (induction rs) (auto split: sum.splits if_splits)



lemma visit_mig_error:
  "snd (visit_mig b d i j mig) \<noteq> None \<Longrightarrow> fst (visit_mig b d i j mig) = d"
  using classify_error [of "resources b" d _ _ "mig_info mig"]
  by (auto simp: visit_mig_def split: option.splits)

















lemma decimal_0_1 [simp]: "decimal 0 = ''0''" "decimal (Suc 0) = ''1''"
  by (simp_all add: decimal_small digit_char_def)

lemmas eval_build = buildGPUDeviceMap_def VisitDevices_def library_of_def gpu_descriptor_def
  laptop_and_tesla_def gpu_named_def visit_gpu_def setEntry_def BuildDevice_def


text \<open>A device that the library skips is not visited, and the next one keeps its driver index.\<close>

lemma build_skips_DGX_Display:
  "buildGPUDeviceMap \<lparr>migStrategy = ''none'', resources = [gpu_descriptor]\<rparr>
       (library_of [gpu_named ''DGX Display'' ''GPU-d'', gpu_named ''NVIDIA A100 GPU'' ''GPU-0''])
     = ([(''nvidia.com/gpu'',
          [(''GPU-0'', \<lparr>ID = ''GPU-0'', Health = ''Healthy'', Topology = None,
              Paths = [''/dev/nvidia0''], Index = ''1'', TotalMemory = 16384,
              ComputeCapability = ''8.6'', Replicas = 0\<rparr>)])],
        None)"
  by (simp add: eval_build eval_matcher)



end
